theory Spec2Isabelle
  imports Complex_Main "HOL-Library.Extended_Nat" "HOL-Library.Multiset"
begin

section \<open>Numbers of the source language\<close>

text \<open>
  The source is TypeScript: barycenters and weights are IEEE doubles. They are modelled
  as rationals extended by the two infinities and NaN, so that the unguarded division
  in \<open>mergeEntries\<close> and \<open>barycenter\<close> has the value the source computes
  (\<open>0/0\<close> is NaN, \<open>x/0\<close> is an infinity). Rounding and the sign of zero are not modelled.
\<close>

datatype jsnum = Fin rat | PInf | NInf | NaN

fun jadd :: "jsnum \<Rightarrow> jsnum \<Rightarrow> jsnum" where
  "jadd (Fin a) (Fin b) = Fin (a + b)"
| "jadd NaN _ = NaN"
| "jadd _ NaN = NaN"
| "jadd PInf NInf = NaN"
| "jadd NInf PInf = NaN"
| "jadd PInf _ = PInf"
| "jadd _ PInf = PInf"
| "jadd NInf _ = NInf"
| "jadd _ NInf = NInf"

fun jneg :: "jsnum \<Rightarrow> jsnum" where
  "jneg (Fin a) = Fin (- a)"
| "jneg PInf = NInf"
| "jneg NInf = PInf"
| "jneg NaN = NaN"

text \<open>The sign of a number that is not NaN: \<open>1\<close>, \<open>0\<close> or \<open>-1\<close>.\<close>

fun jsign :: "jsnum \<Rightarrow> int" where
  "jsign (Fin a) = (if a = 0 then 0 else if 0 < a then 1 else - 1)"
| "jsign PInf = 1"
| "jsign NInf = - 1"
| "jsign NaN = 0"

definition signedInf :: "int \<Rightarrow> jsnum" where
  "signedInf s = (if s = 0 then NaN else if 0 < s then PInf else NInf)"

fun jmul :: "jsnum \<Rightarrow> jsnum \<Rightarrow> jsnum" where
  "jmul (Fin a) (Fin b) = Fin (a * b)"
| "jmul NaN _ = NaN"
| "jmul _ NaN = NaN"
| "jmul x y = signedInf (jsign x * jsign y)"

fun jdiv :: "jsnum \<Rightarrow> jsnum \<Rightarrow> jsnum" where
  "jdiv (Fin a) (Fin b) = (if b = 0 then signedInf (jsign (Fin a)) else Fin (a / b))"
| "jdiv NaN _ = NaN"
| "jdiv _ NaN = NaN"
| "jdiv (Fin a) _ = Fin 0"
| "jdiv x (Fin b) = (if b < 0 then jneg x else x)"
| "jdiv _ _ = NaN"

text \<open>\<open>x >= y\<close> of the source: false as soon as one side is NaN.\<close>

fun jge :: "jsnum \<Rightarrow> jsnum \<Rightarrow> bool" where
  "jge (Fin a) (Fin b) = (b \<le> a)"
| "jge NaN _ = False"
| "jge _ NaN = False"
| "jge PInf _ = True"
| "jge _ NInf = True"
| "jge _ _ = False"

text \<open>Truthiness of an optional number: \<open>undefined\<close>, \<open>0\<close> and NaN are falsy.\<close>

fun truthy :: "jsnum option \<Rightarrow> bool" where
  "truthy None = False"
| "truthy (Some (Fin a)) = (a \<noteq> 0)"
| "truthy (Some NaN) = False"
| "truthy (Some _) = True"

section \<open>Graphs\<close>

text \<open>
  The graph library is an external collaborator, used through its interface: all nodes,
  all edges (both in insertion order), a node by id, the edges at a node by direction,
  the hierarchy parent. A graph is modelled as the two lists and the parent map; node
  and edge data are flattened into the node and edge records. An absent numeric property
  (\<open>undefined\<close>) is \<open>None\<close>; for the fields that the source only uses in arithmetic
  (\<open>weight\<close>, \<open>order\<close>) it is NaN, which is what that arithmetic makes of it.
\<close>

type_synonym ID = string

record Node =
  nid :: ID
  rank :: "int option"
  layer :: "int option"
  norder :: jsnum
  fixorder :: "int option"
  minRank :: "int option"
  maxRank :: "int option"
  borderLeft :: "ID list option"
  borderRight :: "ID list option"

record Edge =
  eid :: ID
  source :: ID
  target :: ID
  minlen :: "int option"
  weight :: jsnum

record Graph =
  nodes :: "Node list"
  edges :: "Edge list"
  parent :: "ID \<Rightarrow> ID option"

definition getNode :: "Graph \<Rightarrow> ID \<Rightarrow> Node option" where
  "getNode g v = find (\<lambda>n. nid n = v) (nodes g)"

definition hasNode :: "Graph \<Rightarrow> ID \<Rightarrow> bool" where
  "hasNode g v = (v \<in> set (map nid (nodes g)))"

datatype direction = In | Out | Both

text \<open>
  \<open>getRelatedEdges\<close>: the edges into the node, the edges out of it, or both (the
  incoming ones first, a self-loop once).
\<close>

fun getRelatedEdges :: "Graph \<Rightarrow> ID \<Rightarrow> direction \<Rightarrow> Edge list" where
  "getRelatedEdges g v In = filter (\<lambda>e. target e = v) (edges g)"
| "getRelatedEdges g v Out = filter (\<lambda>e. source e = v) (edges g)"
| "getRelatedEdges g v Both =
     filter (\<lambda>e. target e = v) (edges g) @
     filter (\<lambda>e. source e = v \<and> target e \<noteq> v) (edges g)"

section \<open>Conflict resolution (\<open>resolveConflicts\<close>)\<close>

text \<open>
  The entries of the source are objects that refer to each other through their
  \<open>in\<close> and \<open>out\<close> arrays and are mutated by \<open>mergeEntries\<close>. Every entry object
  lives in \<open>mappedEntries\<close> under the id of its node, so the model keeps them in a
  store keyed by that id (an association list in the order of the object's keys) and
  the arrays hold ids. The fields \<open>i\<close>, \<open>in\<close> and \<open>out\<close> are named \<open>idx\<close>, \<open>ins\<close>
  and \<open>outs\<close>; the weight of an entry is \<open>cweight\<close>.
\<close>

record BaryEntry =
  entry_v :: ID
  entry_barycenter :: "jsnum option"
  entry_weight :: "jsnum option"

record ConflictEntry =
  idx :: nat
  indegree :: int
  ins :: "ID list"
  outs :: "ID list"
  vs :: "ID list"
  barycenter :: "jsnum option"
  cweight :: "jsnum option"
  merged :: bool

type_synonym store = "(ID \<times> ConflictEntry) list"

text \<open>Reading an object through a reference, and mutating it in place.\<close>

definition getE :: "store \<Rightarrow> ID \<Rightarrow> ConflictEntry option" where
  "getE st k = map_of st k"

fun upd :: "ID \<Rightarrow> (ConflictEntry \<Rightarrow> ConflictEntry) \<Rightarrow> store \<Rightarrow> store" where
  "upd k f [] = []"
| "upd k f (p # ps) = (if fst p = k then (k, f (snd p)) # ps else p # upd k f ps)"

text \<open>\<open>mappedEntries[k] = e\<close>: a new key goes last, a known key keeps its place.\<close>

fun assign :: "ID \<Rightarrow> ConflictEntry \<Rightarrow> store \<Rightarrow> store" where
  "assign k e [] = [(k, e)]"
| "assign k e (p # ps) = (if fst p = k then (k, e) # ps else p # assign k e ps)"

text \<open>
  \<open>mergeEntries(target, source)\<close>. A weight that is absent or zero contributes nothing;
  the division is unguarded.
\<close>

definition mergeEntries :: "ID \<Rightarrow> ID \<Rightarrow> store \<Rightarrow> store" where
  "mergeEntries t s st =
     (case (getE st t, getE st s) of
        (Some te, Some se) \<Rightarrow>
          (let bary = (\<lambda>e. case barycenter e of None \<Rightarrow> NaN | Some b \<Rightarrow> b);
               wght = (\<lambda>e. case cweight e of None \<Rightarrow> NaN | Some w \<Rightarrow> w);
               sum0 = Fin 0;
               weight0 = Fin 0;
               sum1 = (if truthy (cweight te) then jadd sum0 (jmul (bary te) (wght te)) else sum0);
               weight1 = (if truthy (cweight te) then jadd weight0 (wght te) else weight0);
               sum2 = (if truthy (cweight se) then jadd sum1 (jmul (bary se) (wght se)) else sum1);
               weight2 = (if truthy (cweight se) then jadd weight1 (wght se) else weight1);
               st1 = upd t (\<lambda>e. e\<lparr>vs := vs se @ vs e,
                                     barycenter := Some (jdiv sum2 weight2),
                                     cweight := Some weight2,
                                     idx := min (idx se) (idx e)\<rparr>) st
           in upd s (\<lambda>e. e\<lparr>merged := True\<rparr>) st1)
      | _ \<Rightarrow> st)"

text \<open>\<open>handleIn(vEntry)(uEntry)\<close>\<close>

definition handleIn :: "ID \<Rightarrow> ID \<Rightarrow> store \<Rightarrow> store" where
  "handleIn v u st =
     (case (getE st v, getE st u) of
        (Some ve, Some ue) \<Rightarrow>
          if merged ue then st
          else (case (barycenter ue, barycenter ve) of
                  (Some bu, Some bv) \<Rightarrow> if jge bu bv then mergeEntries v u st else st
                | _ \<Rightarrow> mergeEntries v u st)
      | _ \<Rightarrow> st)"

text \<open>\<open>handleOut(vEntry)(wEntry)\<close>, on the store and the source set.\<close>

definition handleOut :: "ID \<Rightarrow> ID \<Rightarrow> store \<times> ID list \<Rightarrow> store \<times> ID list" where
  "handleOut v w s =
     (case getE (fst s) w of
        None \<Rightarrow> s
      | Some we \<Rightarrow>
          (let st1 = upd w (\<lambda>e. e\<lparr>ins := ins e @ [v], indegree := indegree e - 1\<rparr>) (fst s)
           in if indegree we - 1 = 0 then (st1, snd s @ [w]) else (st1, snd s)))"

text \<open>
  One turn of the \<open>while\<close> loop of \<open>doResolveConflicts\<close>: pop the last entry of the
  source set, push it on \<open>entries\<close>, reverse its \<open>in\<close> array in place and run
  \<open>handleIn\<close> over it, then run \<open>handleOut\<close> over its \<open>out\<close> array.
\<close>

definition turn :: "store \<times> ID list \<times> ID list \<Rightarrow> store \<times> ID list \<times> ID list" where
  "turn s =
     (case s of (st, sourceSet, entries) \<Rightarrow>
        (let entry = last sourceSet;
             sourceSet1 = butlast sourceSet;
             entries1 = entries @ [entry];
             st1 = upd entry (\<lambda>e. e\<lparr>ins := rev (ins e)\<rparr>) st;
             st2 = fold (handleIn entry) (case getE st1 entry of None \<Rightarrow> [] | Some e \<Rightarrow> ins e) st1;
             r = fold (handleOut entry) (case getE st2 entry of None \<Rightarrow> [] | Some e \<Rightarrow> outs e)
                   (st2, sourceSet1)
         in (fst r, snd r, entries1)))"

definition pending :: "store \<times> ID list \<times> ID list \<Rightarrow> nat" where
  "pending s = length (fst (snd s)) + length (filter (\<lambda>p. 0 < indegree (snd p)) (fst s))"

text \<open>
  The loop ends: a turn takes one entry off the source set, and puts an entry on it only
  when that entry's in-degree falls from one to zero, which it does once.
\<close>

lemma getE_upd: "getE (upd k f st) k' = (if k' = k then map_option f (getE st k) else getE st k')"
  by (induction st) (auto simp: getE_def)


lemma positive_upd_same:
  "(\<And>e. indegree (f e) = indegree e) \<Longrightarrow>
   length (filter (\<lambda>p. 0 < indegree (snd p)) (upd k f st))
     = length (filter (\<lambda>p. 0 < indegree (snd p)) st)"
  by (induction st) auto

lemma pending_upd_same:
  "(\<And>e. indegree (f e) = indegree e) \<Longrightarrow> pending (upd k f st, r) = pending (st, r)"
  by (simp add: pending_def positive_upd_same)

lemma positive_upd_decr:
  "getE st w = Some we \<Longrightarrow> (\<And>e. indegree (f e) = indegree e - 1) \<Longrightarrow>
   length (filter (\<lambda>p. 0 < indegree (snd p)) (upd w f st)) + (if indegree we = 1 then 1 else 0)
     = length (filter (\<lambda>p. 0 < indegree (snd p)) st)"
  by (induction st) (auto simp: getE_def split: if_splits)

lemma pending_mergeEntries: "pending (mergeEntries t s st, r) = pending (st, r)"
  by (simp add: mergeEntries_def Let_def pending_upd_same split: option.splits)

lemma pending_handleIn: "pending (handleIn v u st, r) = pending (st, r)"
  by (simp add: handleIn_def pending_mergeEntries split: option.splits)

lemma pending_fold_handleIn: "pending (fold (handleIn v) us st, r) = pending (st, r)"
  by (induction us arbitrary: st) (simp_all add: pending_handleIn)

lemma pending_handleOut:
  "pending (fst (handleOut v w s), snd (handleOut v w s), es') = pending (fst s, snd s, es)"
proof (cases "getE (fst s) w")
  case None
  then show ?thesis by (simp add: handleOut_def pending_def)
next
  case (Some we)
  have "length (filter (\<lambda>p. 0 < indegree (snd p))
          (upd w (\<lambda>e. e\<lparr>ins := ins e @ [v], indegree := indegree e - 1\<rparr>) (fst s)))
        + (if indegree we = 1 then 1 else 0)
        = length (filter (\<lambda>p. 0 < indegree (snd p)) (fst s))"
    by (rule positive_upd_decr [OF Some]) simp
  with Some show ?thesis
    by (auto simp: handleOut_def pending_def Let_def)
qed

lemma pending_fold_handleOut:
  "pending (fst (fold (handleOut v) ws s), snd (fold (handleOut v) ws s), es')
     = pending (fst s, snd s, es)"
proof (induction ws arbitrary: s)
  case Nil
  then show ?case by (simp add: pending_def)
next
  case (Cons w ws)
  show ?case
    using Cons.IH [of "handleOut v w s"] pending_handleOut [of v w s es es] by simp
qed

lemma pending_turn:
  assumes "sourceSet \<noteq> []"
  shows "pending (turn (st, sourceSet, entries)) < pending (st, sourceSet, entries)"
proof -
  define entry where "entry = last sourceSet"
  define st1 where "st1 = upd entry (\<lambda>e. e\<lparr>ins := rev (ins e)\<rparr>) st"
  define st2 where
    "st2 = fold (handleIn entry) (case getE st1 entry of None \<Rightarrow> [] | Some e \<Rightarrow> ins e) st1"
  define r where
    "r = fold (handleOut entry) (case getE st2 entry of None \<Rightarrow> [] | Some e \<Rightarrow> outs e)
           (st2, butlast sourceSet)"
  have t: "turn (st, sourceSet, entries) = (fst r, snd r, entries @ [entry])"
    by (simp add: turn_def Let_def entry_def st1_def st2_def r_def)
  have "pending (fst r, snd r, entries @ [entry]) = pending (st2, butlast sourceSet, entries)"
    unfolding r_def using pending_fold_handleOut [of entry _ "(st2, butlast sourceSet)"] by simp
  also have "\<dots> = pending (st1, butlast sourceSet, entries)"
    unfolding st2_def by (rule pending_fold_handleIn)
  also have "\<dots> = pending (st, butlast sourceSet, entries)"
    unfolding st1_def by (rule pending_upd_same) simp
  also have "\<dots> < pending (st, sourceSet, entries)"
    using assms by (simp add: pending_def)
  finally show ?thesis using t by simp
qed

function whileSourceSet :: "store \<times> ID list \<times> ID list \<Rightarrow> store \<times> ID list \<times> ID list" where
  "whileSourceSet s = (if fst (snd s) = [] then s else whileSourceSet (turn s))"
  by pat_completeness auto
termination
proof (relation "measure pending")
  show "wf (measure pending)" by simp
next
  fix s :: "store \<times> ID list \<times> ID list"
  assume "fst (snd s) \<noteq> []"
  then show "(turn s, s) \<in> measure pending"
    using pending_turn [of "fst (snd s)" "fst s" "snd (snd s)"] by simp
qed

declare whileSourceSet.simps [simp del]

text \<open>The entries returned: those not merged, with the four picked fields.\<close>

record Resolved =
  r_vs :: "ID list"
  r_i :: nat
  r_barycenter :: "jsnum option"
  r_weight :: "jsnum option"

definition pick :: "ConflictEntry \<Rightarrow> Resolved" where
  "pick e = \<lparr>r_vs = vs e, r_i = idx e, r_barycenter = barycenter e, r_weight = cweight e\<rparr>"

definition doResolveConflicts :: "store \<Rightarrow> ID list \<Rightarrow> Resolved list" where
  "doResolveConflicts st sourceSet =
     (case whileSourceSet (st, sourceSet, []) of (st', _, entries) \<Rightarrow>
        map pick (filter (\<lambda>e. \<not> merged e) (List.map_filter (getE st') entries)))"

text \<open>
  \<open>Object.values(mappedEntries)\<close> lists the keys that are array indices (canonical
  decimal numerals below \<open>2^32 - 1\<close>) first, in ascending numeric order, and the
  other keys after them in insertion order.
\<close>

definition isDigit :: "char \<Rightarrow> bool" where
  "isDigit c = (c \<in> set ''0123456789'')"

definition arrayIndex :: "string \<Rightarrow> int option" where
  "arrayIndex s =
     (if s = [] \<or> \<not> list_all isDigit s \<or> (hd s = CHR ''0'' \<and> 1 < length s) then None
      else (let n = foldl (\<lambda>a c. 10 * a + (of_char c - 48)) 0 s
            in if n < 4294967295 then Some n else None))"

definition objectKeys :: "store \<Rightarrow> ID list" where
  "objectKeys st =
     sort_key (\<lambda>k. the (arrayIndex k)) (filter (\<lambda>k. arrayIndex k \<noteq> None) (map fst st)) @
     filter (\<lambda>k. arrayIndex k = None) (map fst st)"

definition newEntry :: "nat \<Rightarrow> BaryEntry \<Rightarrow> ConflictEntry" where
  "newEntry i entry =
     \<lparr>idx = i, indegree = 0, ins = [], outs = [], vs = [entry_v entry],
      barycenter = entry_barycenter entry,
      cweight = (if entry_barycenter entry \<noteq> None then entry_weight entry else None),
      merged = False\<rparr>"

definition mapEntries :: "BaryEntry list \<Rightarrow> store" where
  "mapEntries entries =
     fold (\<lambda>p st. assign (entry_v (fst p)) (newEntry (snd p) (fst p)) st)
          (zip entries [0 ..< length entries]) []"

definition addConstraint :: "Edge \<Rightarrow> store \<Rightarrow> store" where
  "addConstraint e st =
     (case (getE st (source e), getE st (target e)) of
        (Some entryV, Some entryW) \<Rightarrow>
          upd (source e) (\<lambda>x. x\<lparr>outs := outs x @ [target e]\<rparr>)
            (upd (target e) (\<lambda>x. x\<lparr>indegree := indegree x + 1\<rparr>) st)
      | _ \<Rightarrow> st)"

definition resolveConflicts :: "BaryEntry list \<Rightarrow> Graph \<Rightarrow> Resolved list" where
  "resolveConflicts entries cg =
     (let mappedEntries = fold addConstraint (edges cg) (mapEntries entries);
          sourceSet = filter (\<lambda>k. case getE mappedEntries k of None \<Rightarrow> False
                                     | Some entry \<Rightarrow> indegree entry = 0)
                        (objectKeys mappedEntries)
      in doResolveConflicts mappedEntries sourceSet)"

text \<open>A constraint graph from its edges, and an entry with or without a barycenter.\<close>

definition cedge :: "ID \<Rightarrow> ID \<Rightarrow> Edge" where
  "cedge u w = \<lparr>eid = u @ ''->'' @ w, source = u, target = w, minlen = None, weight = NaN\<rparr>"

definition bareNode :: "ID \<Rightarrow> Node" where
  "bareNode v = \<lparr>nid = v, rank = None, layer = None, norder = NaN, fixorder = None,
                 minRank = None, maxRank = None, borderLeft = None, borderRight = None\<rparr>"

definition constraintGraph :: "ID list \<Rightarrow> (ID \<times> ID) list \<Rightarrow> Graph" where
  "constraintGraph ns es =
     \<lparr>nodes = map bareNode ns, edges = map (\<lambda>p. cedge (fst p) (snd p)) es,
      parent = (\<lambda>_. None)\<rparr>"

definition withBary :: "ID \<Rightarrow> rat \<Rightarrow> rat \<Rightarrow> BaryEntry" where
  "withBary x b w = \<lparr>entry_v = x, entry_barycenter = Some (Fin b), entry_weight = Some (Fin w)\<rparr>"

definition noBary :: "ID \<Rightarrow> BaryEntry" where
  "noBary x = \<lparr>entry_v = x, entry_barycenter = None, entry_weight = None\<rparr>"

section \<open>The ordering loop (\<open>order\<close>)\<close>

text \<open>
  \<open>order\<close> drives functions that are not among the sources at hand: \<open>sortSubgraph\<close> and
  \<open>addSubgraphConstraints\<close> (called by \<open>sweepLayerGraphs\<close>), \<open>buildLayerMatrix\<close> and
  \<open>crossCount\<close>; \<open>initOrder\<close> walks the hierarchy with the library's \<open>dfsTree\<close>. The loop
  is modelled over its collaborators, which are parameters. What they read and write
  (the graph with the \<open>order\<close> of every node, and the layer graphs, which share the
  node data) is a state of an arbitrary type \<open>'w\<close>, and what \<open>initOrder\<close> and
  \<open>buildLayerMatrix\<close> return is of an arbitrary type \<open>'l\<close>. A layering is the matrix
  of node ids, one row per rank.
\<close>

type_synonym layering = "ID list list"

record ('w, 'l) collaborators =
  initOrder :: "'w \<Rightarrow> 'l"
  assignOrder :: "'w \<Rightarrow> 'l \<Rightarrow> 'w"
  sweepLayerGraphs :: "bool \<Rightarrow> bool \<Rightarrow> bool \<Rightarrow> 'w \<Rightarrow> 'w"
  buildLayerMatrix :: "'w \<Rightarrow> 'l"
  crossCount :: "'w \<Rightarrow> 'l \<Rightarrow> nat"

text \<open>
  The variables of a \<open>for\<close> loop of \<open>order\<close>: the loop counter \<open>i\<close> (here \<open>iter\<close>),
  \<open>lastBest\<close>, and the two variables declared before the first loop, \<open>best\<close> (declared
  without a value) and \<open>bestCC\<close> (\<open>Number.POSITIVE_INFINITY\<close> at first).
\<close>

record ('w, 'l) climb =
  world :: 'w
  iter :: nat
  lastBest :: nat
  best :: "'l option"
  bestCC :: enat

text \<open>
  The body of the loop. The first argument of \<open>sweepLayerGraphs\<close> tells whether the
  downward layer graphs are swept (\<open>i % 2\<close> is not zero), the second is \<open>i % 4 >= 2\<close>,
  the third is \<open>usePrev\<close>: false in the first loop, true in the second.
\<close>

definition measured :: "('w, 'l) collaborators \<Rightarrow> bool \<Rightarrow> ('w, 'l) climb \<Rightarrow> 'w" where
  "measured cs usePrev s =
     sweepLayerGraphs cs (iter s mod 2 \<noteq> 0) (2 \<le> iter s mod 4) usePrev (world s)"

definition cc :: "('w, 'l) collaborators \<Rightarrow> bool \<Rightarrow> ('w, 'l) climb \<Rightarrow> nat" where
  "cc cs usePrev s =
     crossCount cs (measured cs usePrev s) (buildLayerMatrix cs (measured cs usePrev s))"

definition body :: "('w, 'l) collaborators \<Rightarrow> bool \<Rightarrow> ('w, 'l) climb \<Rightarrow> ('w, 'l) climb" where
  "body cs usePrev s =
     (let w = measured cs usePrev s;
          layering = buildLayerMatrix cs w
      in if enat (cc cs usePrev s) < bestCC s
         then s\<lparr>world := w, lastBest := 0, best := Some layering, bestCC := enat (cc cs usePrev s)\<rparr>
         else s\<lparr>world := w\<rparr>)"

text \<open>The update of the \<open>for\<close> statement, \<open>++i, ++lastBest\<close>, and one whole iteration.\<close>

definition forUpdate :: "('w, 'l) climb \<Rightarrow> ('w, 'l) climb" where
  "forUpdate s = s\<lparr>iter := iter s + 1, lastBest := lastBest s + 1\<rparr>"

definition iteration :: "('w, 'l) collaborators \<Rightarrow> bool \<Rightarrow> ('w, 'l) climb \<Rightarrow> ('w, 'l) climb" where
  "iteration cs usePrev s = forUpdate (body cs usePrev s)"

lemma bestCC_iteration: "bestCC (iteration cs usePrev s) \<le> bestCC s"
  by (auto simp add: iteration_def forUpdate_def body_def Let_def intro: less_imp_le)

lemma lastBest_iteration:
  "lastBest (iteration cs usePrev s)
     = (if enat (cc cs usePrev s) < bestCC s then 1 else lastBest s + 1)"
  by (simp add: iteration_def forUpdate_def body_def Let_def)

lemma bestCC_iteration_less:
  "enat (cc cs usePrev s) < bestCC s \<Longrightarrow> bestCC (iteration cs usePrev s) < bestCC s"
  by (simp add: iteration_def forUpdate_def body_def Let_def)

lemma bestCC_iteration_same:
  "\<not> enat (cc cs usePrev s) < bestCC s \<Longrightarrow> bestCC (iteration cs usePrev s) = bestCC s"
  by (simp add: iteration_def forUpdate_def body_def Let_def)

text \<open>
  The loop \<open>for (i = 0, lastBest = 0; lastBest < 4; ++i, ++lastBest)\<close>. It ends because
  an iteration either lowers \<open>bestCC\<close>, a natural number or infinity, or raises
  \<open>lastBest\<close> towards four.
\<close>

function hillClimb :: "('w, 'l) collaborators \<Rightarrow> bool \<Rightarrow> ('w, 'l) climb \<Rightarrow> ('w, 'l) climb" where
  "hillClimb cs usePrev s =
     (if lastBest s < 4 then hillClimb cs usePrev (iteration cs usePrev s) else s)"
  by pat_completeness auto
termination
proof (relation "inv_image ({(a, b). a < b} <*lex*> less_than)
                   (\<lambda>(cs, usePrev, s). (bestCC s, 4 - lastBest s))")
  show "wf (inv_image ({(a::enat, b). a < b} <*lex*> less_than)
             (\<lambda>(cs :: ('w, 'l) collaborators, usePrev :: bool, s :: ('w, 'l) climb). (bestCC s, 4 - lastBest s)))"
    by (intro wf_inv_image wf_lex_prod wf wf_less_than)
next
  fix cs :: "('w, 'l) collaborators" and usePrev :: bool and s :: "('w, 'l) climb"
  assume "lastBest s < 4"
  then show "((cs, usePrev, iteration cs usePrev s), cs, usePrev, s)
        \<in> inv_image ({(a, b). a < b} <*lex*> less_than)
             (\<lambda>(cs, usePrev, s). (bestCC s, 4 - lastBest s))"
    using bestCC_iteration_less [of cs usePrev s] bestCC_iteration_same [of cs usePrev s]
      lastBest_iteration [of cs usePrev s]
    by (cases "enat (cc cs usePrev s) < bestCC s") auto
qed

declare hillClimb.simps [simp del]

text \<open>
  \<open>order\<close>, up to the last \<open>assignOrder\<close>: the state before the first loop, the state
  before the second loop, and the state the second loop ends in.
\<close>

definition beforeFirstLoop :: "('w, 'l) collaborators \<Rightarrow> 'w \<Rightarrow> ('w, 'l) climb" where
  "beforeFirstLoop cs g =
     \<lparr>world = assignOrder cs g (initOrder cs g), iter = 0, lastBest = 0,
      best = None, bestCC = \<infinity>\<rparr>"

definition beforeSecondLoop :: "('w, 'l) collaborators \<Rightarrow> ('w, 'l) climb \<Rightarrow> ('w, 'l) climb" where
  "beforeSecondLoop cs s =
     s\<lparr>world := assignOrder cs (world s) (initOrder cs (world s)), iter := 0, lastBest := 0\<rparr>"

definition afterLoops :: "('w, 'l) collaborators \<Rightarrow> 'w \<Rightarrow> ('w, 'l) climb" where
  "afterLoops cs g =
     hillClimb cs True (beforeSecondLoop cs (hillClimb cs False (beforeFirstLoop cs g)))"

text \<open>
  The last statement, \<open>assignOrder(g, best)\<close>; \<open>assignOrder\<close> does nothing when its
  layering is undefined (\<open>layering?.forEach\<close>).
\<close>

definition order :: "('w, 'l) collaborators \<Rightarrow> 'w \<Rightarrow> 'w" where
  "order cs g =
     (let s = afterLoops cs g
      in case best s of None \<Rightarrow> world s | Some layering \<Rightarrow> assignOrder cs (world s) layering)"

text \<open>An iteration improves when the count it measures is below \<open>bestCC\<close>.\<close>

definition improves :: "('w, 'l) collaborators \<Rightarrow> bool \<Rightarrow> ('w, 'l) climb \<Rightarrow> bool" where
  "improves cs usePrev s = (enat (cc cs usePrev s) < bestCC s)"

section \<open>Ranking: \<open>longestPath\<close>\<close>

text \<open>
  A rank is an integer; \<open>None\<close> stands for \<open>undefined\<close> and for NaN, which the source
  treats alike wherever it reads a rank (both are falsy, and arithmetic on either gives
  NaN). The library keeps the endpoints of every edge among the nodes; looking up the
  rank of a node that does not exist is given the value \<open>None\<close>.
\<close>

definition rankOf :: "Graph \<Rightarrow> ID \<Rightarrow> int option" where
  "rankOf g v = (case getNode g v of None \<Rightarrow> None | Some label \<Rightarrow> rank label)"

text \<open>\<open>g.getNode(v).data.rank = r\<close>\<close>

definition setRank :: "Graph \<Rightarrow> ID \<Rightarrow> int option \<Rightarrow> Graph" where
  "setRank g v r = g\<lparr>nodes := map (\<lambda>n. if nid n = v then n\<lparr>rank := r\<rparr> else n) (nodes g)\<rparr>"

text \<open>\<open>a - b\<close> on numbers that may be undefined.\<close>

definition minus_opt :: "int option \<Rightarrow> int option \<Rightarrow> int option" where
  "minus_opt a b = (case (a, b) of (Some x, Some y) \<Rightarrow> Some (x - y) | _ \<Rightarrow> None)"

text \<open>
  The body of the \<open>forEach\<close> in \<open>dfs\<close>: with the rank \<open>wRank\<close> returned for the target,
  \<open>r = wRank - minLen\<close>, and \<open>rank\<close> becomes \<open>r\<close> if \<open>r\<close> is truthy and \<open>rank\<close> is
  undefined or larger.
\<close>

definition candidate :: "int option \<Rightarrow> int option \<Rightarrow> int option \<Rightarrow> int option" where
  "candidate rnk wRank minLen =
     (case minus_opt wRank minLen of
        None \<Rightarrow> rnk
      | Some r \<Rightarrow> if r \<noteq> 0 \<and> (case rnk of None \<Rightarrow> True | Some k \<Rightarrow> r < k) then Some r else rnk)"

text \<open>
  \<open>visited\<close> is the object literal \<open>{}\<close>, read with \<open>visited[v]\<close>: beside the keys
  that \<open>visited[v] = true\<close> has written, the read finds the members the object inherits
  from \<open>Object.prototype\<close>, all of them truthy. The model keeps the set of keys at
  which the read is truthy, so it starts from the inherited names and not from the
  empty set.
\<close>

definition inheritedKeys :: "ID list" where
  "inheritedKeys =
     [''constructor'', ''__defineGetter__'', ''__defineSetter__'', ''hasOwnProperty'',
      ''__lookupGetter__'', ''__lookupSetter__'', ''isPrototypeOf'', ''propertyIsEnumerable'',
      ''toString'', ''valueOf'', ''__proto__'', ''toLocaleString'']"

text \<open>
  \<open>dfs\<close> of \<open>longestPath\<close> recurses through the \<open>forEach\<close> over the outgoing edges. The
  state is the graph (for the ranks) and \<open>visited\<close>. The first argument bounds the depth
  of the recursion; running out of it is \<open>None\<close>.
\<close>

fun dfs :: "nat \<Rightarrow> ID \<Rightarrow> Graph \<times> ID set \<Rightarrow> (int option \<times> Graph \<times> ID set) option"
  and dfsEdges :: "nat \<Rightarrow> Edge list \<Rightarrow> int option \<Rightarrow> Graph \<times> ID set
                     \<Rightarrow> (int option \<times> Graph \<times> ID set) option" where
  "dfs 0 v s = None"
| "dfs (Suc n) v s =
     (case getNode (fst s) v of
        None \<Rightarrow> Some (Some 0, s)
      | Some label \<Rightarrow>
          if v \<in> snd s then Some (rank label, s)
          else (case dfsEdges n (getRelatedEdges (fst s) v Out) None (fst s, insert v (snd s)) of
                  None \<Rightarrow> None
                | Some (rnk, g', visited') \<Rightarrow>
                    (let rnk' = (case rnk of None \<Rightarrow> 0 | Some r \<Rightarrow> r)
                     in Some (Some rnk', setRank g' v (Some rnk'), visited'))))"
| "dfsEdges n [] rnk s = Some (rnk, s)"
| "dfsEdges n (e # es) rnk s =
     (case dfs n (target e) s of
        None \<Rightarrow> None
      | Some (wRank, s') \<Rightarrow> dfsEdges n es (candidate rnk wRank (minlen e)) s')"

text \<open>The nodes without incoming edges, each the start of a \<open>dfs\<close>.\<close>

fun dfsAll :: "nat \<Rightarrow> ID list \<Rightarrow> Graph \<times> ID set \<Rightarrow> (Graph \<times> ID set) option" where
  "dfsAll n [] s = Some s"
| "dfsAll n (v # rest) s = (case dfs n v s of None \<Rightarrow> None | Some (_, s') \<Rightarrow> dfsAll n rest s')"

definition sourcesOf :: "Graph \<Rightarrow> ID list" where
  "sourcesOf g = map nid (filter (\<lambda>n. getRelatedEdges g (nid n) In = []) (nodes g))"

definition longestPath :: "nat \<Rightarrow> Graph \<Rightarrow> Graph option" where
  "longestPath fuel g = map_option fst (dfsAll fuel (sourcesOf g) (g, set inheritedKeys))"

text \<open>
  \<open>slack\<close>: the length of the edge beyond its \<open>minlen\<close>; NaN (\<open>None\<close>) when a rank or the
  \<open>minlen\<close> is undefined.
\<close>

definition slack :: "Graph \<Rightarrow> Edge \<Rightarrow> int option" where
  "slack g e = minus_opt (minus_opt (rankOf g (target e)) (rankOf g (source e))) (minlen e)"

section \<open>Ranking: \<open>feasibleTree\<close>\<close>

text \<open>
  The tree \<open>t\<close> is a graph of the same library. Its nodes carry no data, except the
  first, which is the node object of \<open>g\<close> itself; its edges carry the id of the edge of
  \<open>g\<close> they come from.
\<close>

definition addNode :: "Graph \<Rightarrow> Node \<Rightarrow> Graph" where
  "addNode t n = t\<lparr>nodes := nodes t @ [n]\<rparr>"

definition addEdge :: "Graph \<Rightarrow> Edge \<Rightarrow> Graph" where
  "addEdge t e = t\<lparr>edges := edges t @ [e]\<rparr>"

definition treeEdge :: "ID \<Rightarrow> ID \<Rightarrow> ID \<Rightarrow> Edge" where
  "treeEdge i v w = \<lparr>eid = i, source = v, target = w, minlen = None, weight = NaN\<rparr>"

definition emptyGraph :: Graph where
  "emptyGraph = \<lparr>nodes = [], edges = [], parent = (\<lambda>_. None)\<rparr>"

text \<open>\<open>!slack(g, e)\<close>: the slack is zero or NaN.\<close>

definition noSlack :: "Graph \<Rightarrow> Edge \<Rightarrow> bool" where
  "noSlack g e = (case slack g e of None \<Rightarrow> True | Some k \<Rightarrow> k = 0)"

text \<open>
  \<open>dfs\<close> of \<open>tightTree\<close>, again with a bound on the depth of the recursion. The state is
  the tree.
\<close>

fun tightDfs :: "nat \<Rightarrow> Graph \<Rightarrow> ID \<Rightarrow> Graph \<Rightarrow> Graph option"
  and tightEdges :: "nat \<Rightarrow> Graph \<Rightarrow> ID \<Rightarrow> Edge list \<Rightarrow> Graph \<Rightarrow> Graph option" where
  "tightDfs 0 g v t = None"
| "tightDfs (Suc n) g v t = tightEdges n g v (getRelatedEdges g v Both) t"
| "tightEdges n g v [] t = Some t"
| "tightEdges n g v (e # es) t =
     (let edgeV = source e;
          w = (if v = edgeV then target e else edgeV)
      in if \<not> hasNode t w \<and> noSlack g e
         then (case tightDfs n g w (addEdge (addNode t (bareNode w)) (treeEdge (eid e) v w)) of
                 None \<Rightarrow> None
               | Some t' \<Rightarrow> tightEdges n g v es t')
         else tightEdges n g v es t)"

fun tightAll :: "nat \<Rightarrow> Graph \<Rightarrow> ID list \<Rightarrow> Graph \<Rightarrow> Graph option" where
  "tightAll n g [] t = Some t"
| "tightAll n g (v # rest) t =
     (case tightDfs n g v t of None \<Rightarrow> None | Some t' \<Rightarrow> tightAll n g rest t')"

text \<open>\<open>tightTree(t, g)\<close>: the grown tree, whose number of nodes is the value returned.\<close>

definition tightTree :: "nat \<Rightarrow> Graph \<Rightarrow> Graph \<Rightarrow> Graph option" where
  "tightTree depth t g = tightAll depth g (map nid (nodes t)) t"

text \<open>\<open>x > y\<close> of the source: false as soon as one side is NaN.\<close>

fun jgt :: "jsnum \<Rightarrow> jsnum \<Rightarrow> bool" where
  "jgt (Fin a) (Fin b) = (b < a)"
| "jgt NaN _ = False"
| "jgt _ NaN = False"
| "jgt _ PInf = False"
| "jgt PInf _ = True"
| "jgt NInf _ = False"
| "jgt _ NInf = True"

text \<open>
  Modelled from the spec: \<open>minBy\<close> of \<open>../util\<close> is not among the sources. The
  specification of \<open>findMinSlackEdge\<close> has it return the element with the least score,
  the first one seen among equals; it is taken to be the customary \<open>reduce\<close> that
  keeps the element at hand unless its score is greater than that of the next, and
  that throws a \<open>TypeError\<close> on an empty array (\<open>None\<close>).
\<close>

fun minBy :: "'a list \<Rightarrow> ('a \<Rightarrow> jsnum) \<Rightarrow> 'a option" where
  "minBy [] f = None"
| "minBy (x # xs) f = Some (fold (\<lambda>b a. if jgt (f a) (f b) then b else a) xs x)"

definition score :: "int option \<Rightarrow> jsnum" where
  "score k = (case k of None \<Rightarrow> NaN | Some i \<Rightarrow> Fin (of_int i))"

definition findMinSlackEdge :: "Graph \<Rightarrow> Graph \<Rightarrow> Edge option" where
  "findMinSlackEdge t g =
     minBy (edges g)
       (\<lambda>e. if hasNode t (source e) \<noteq> hasNode t (target e) then score (slack g e) else PInf)"

text \<open>
  \<open>shiftRanks\<close>: an undefined (or zero) rank is first made zero, then \<open>delta\<close> is added;
  adding NaN gives NaN.
\<close>

definition shifted :: "int option \<Rightarrow> int option \<Rightarrow> int option" where
  "shifted r delta =
     (case delta of None \<Rightarrow> None | Some d \<Rightarrow> Some ((case r of None \<Rightarrow> 0 | Some k \<Rightarrow> k) + d))"

definition shiftRanks :: "Graph \<Rightarrow> Graph \<Rightarrow> int option \<Rightarrow> Graph" where
  "shiftRanks t g delta =
     fold (\<lambda>tn g'. setRank g' (nid tn) (shifted (rankOf g' (nid tn)) delta)) (nodes t) g"

text \<open>
  The \<open>while\<close> loop of \<open>feasibleTree\<close>. It need not end, so the first argument bounds the
  number of times its condition is evaluated; the second is the bound handed to
  \<open>tightTree\<close>. A thrown exception is \<open>Inl TypeError\<close>.
\<close>

datatype error = TypeError

definition deltaOf :: "Graph \<Rightarrow> Graph \<Rightarrow> Edge \<Rightarrow> int option" where
  "deltaOf t g edge =
     (if hasNode t (source edge) then slack g edge else minus_opt (Some 0) (slack g edge))"

fun whileTight :: "nat \<Rightarrow> nat \<Rightarrow> nat \<Rightarrow> Graph \<Rightarrow> Graph \<Rightarrow> (error + Graph \<times> Graph) option" where
  "whileTight 0 depth sz t g = None"
| "whileTight (Suc n) depth sz t g =
     (case tightTree depth t g of
        None \<Rightarrow> None
      | Some t' \<Rightarrow>
          if length (nodes t') < sz
          then (case findMinSlackEdge t' g of
                  None \<Rightarrow> Some (Inl TypeError)
                | Some edge \<Rightarrow> whileTight n depth sz t' (shiftRanks t' g (deltaOf t' g edge)))
          else Some (Inr (t', g)))"

text \<open>
  \<open>feasibleTree(g)\<close> returns the tree; the graph, whose ranks it has shifted, is returned
  with it. On a graph without nodes \<open>start\<close> is undefined and \<open>addNode\<close> throws.
\<close>

definition feasibleTree :: "nat \<Rightarrow> Graph \<Rightarrow> (error + Graph \<times> Graph) option" where
  "feasibleTree fuel g =
     (case nodes g of
        [] \<Rightarrow> Some (Inl TypeError)
      | start # _ \<Rightarrow> whileTight fuel fuel (length (nodes g)) (addNode emptyGraph start) g)"

text \<open>Graphs for the examples: plain nodes, and edges with a \<open>minlen\<close> and weight one.\<close>

definition arc :: "ID \<Rightarrow> ID \<Rightarrow> int \<Rightarrow> Edge" where
  "arc u w m = \<lparr>eid = u @ ''->'' @ w, source = u, target = w, minlen = Some m, weight = Fin 1\<rparr>"

definition graphOf :: "Node list \<Rightarrow> Edge list \<Rightarrow> Graph" where
  "graphOf ns es = \<lparr>nodes = ns, edges = es, parent = (\<lambda>_. None)\<rparr>"

definition ranks :: "Graph \<Rightarrow> (ID \<times> int option) list" where
  "ranks g = map (\<lambda>n. (nid n, rank n)) (nodes g)"

text \<open>
  A graph on which \<open>feasibleTree\<close> has to shift: \<open>a\<close> has the two sinks \<open>b\<close> and \<open>c\<close>,
  and the longest path leaves the edge to \<open>b\<close> one longer than its \<open>minlen\<close>.
\<close>

definition twoSinks :: Graph where
  "twoSinks = graphOf [bareNode ''a'', bareNode ''b'', bareNode ''c'']
                [arc ''a'' ''b'' 1, arc ''a'' ''c'' 2]"

text \<open>
  An edge into a node whose id is the name of a member of \<open>Object.prototype\<close>.
\<close>

definition constructorSink :: Graph where
  "constructorSink = graphOf [bareNode ''a'', bareNode ''constructor'']
                       [arc ''a'' ''constructor'' 1]"






section \<open>Ranking with pinned layers\<close>

text \<open>
  \<open>longestPathWithLayer\<close>. Its first pass is the \<open>dfs\<close> of \<open>longestPath\<close> that also
  keeps the least rank it has written, \<open>minRank\<close> (here \<open>minRk\<close>). Both \<open>visited\<close> and
  \<open>forwardVisited\<close> are object literals and start from the inherited keys.
\<close>

type_synonym lstate = "Graph \<times> ID set \<times> int option"

definition lower :: "int option \<Rightarrow> int \<Rightarrow> int option" where
  "lower minRk r = (case minRk of None \<Rightarrow> Some r | Some m \<Rightarrow> if r < m then Some r else Some m)"

fun dfsL :: "nat \<Rightarrow> ID \<Rightarrow> lstate \<Rightarrow> (int option \<times> lstate) option"
  and dfsLEdges :: "nat \<Rightarrow> Edge list \<Rightarrow> int option \<Rightarrow> lstate \<Rightarrow> (int option \<times> lstate) option" where
  "dfsL 0 v s = None"
| "dfsL (Suc n) v (g, visited, minRk) =
     (case getNode g v of
        None \<Rightarrow> Some (Some 0, g, visited, minRk)
      | Some label \<Rightarrow>
          if v \<in> visited then Some (rank label, g, visited, minRk)
          else (case dfsLEdges n (getRelatedEdges g v Out) None (g, insert v visited, minRk) of
                  None \<Rightarrow> None
                | Some (rnk, g', visited', minRk') \<Rightarrow>
                    (let rnk' = (case rnk of None \<Rightarrow> 0 | Some r \<Rightarrow> r)
                     in Some (Some rnk', setRank g' v (Some rnk'), visited', lower minRk' rnk'))))"
| "dfsLEdges n [] rnk s = Some (rnk, s)"
| "dfsLEdges n (e # es) rnk s =
     (case dfsL n (target e) s of
        None \<Rightarrow> None
      | Some (wRank, s') \<Rightarrow> dfsLEdges n es (candidate rnk wRank (minlen e)) s')"

fun dfsLAll :: "nat \<Rightarrow> ID list \<Rightarrow> lstate \<Rightarrow> lstate option" where
  "dfsLAll n [] s = Some s"
| "dfsLAll n (v # rest) s = (case dfsL n v s of None \<Rightarrow> None | Some (_, s') \<Rightarrow> dfsLAll n rest s')"

text \<open>
  The second pass, \<open>dfsForward\<close>, tests \<open>label.data.rank === undefined\<close>, the one place
  where a rank that is NaN differs from a rank that is undefined. Ranks are \<open>int option\<close>,
  so the state of this pass names, beside \<open>forwardVisited\<close>, the nodes whose rank is NaN
  (written as such by this function); the ranks of the input graph are numbers or
  undefined. A pinned layer is a number (\<open>layer\<close> is \<open>None\<close> when undefined). An endpoint
  of an edge is always a node, so \<open>getNode\<close> finds it; the model does nothing otherwise.
\<close>

type_synonym fstate = "Graph \<times> ID set \<times> ID set"

definition writeRank :: "ID \<Rightarrow> int option \<Rightarrow> Graph \<times> ID set \<Rightarrow> Graph \<times> ID set" where
  "writeRank v r s = (setRank (fst s) v r, if r = None then insert v (snd s) else snd s - {v})"

definition plus_opt :: "int option \<Rightarrow> int option \<Rightarrow> int option" where
  "plus_opt a b = (case (a, b) of (Some x, Some y) \<Rightarrow> Some (x + y) | _ \<Rightarrow> None)"

fun dfsForward :: "nat \<Rightarrow> ID \<Rightarrow> int option \<Rightarrow> fstate \<Rightarrow> fstate option"
  and forwardEdges :: "nat \<Rightarrow> Edge list \<Rightarrow> int option \<Rightarrow> fstate \<Rightarrow> fstate option" where
  "dfsForward 0 v nextRank s = None"
| "dfsForward (Suc n) v nextRank (g, forwardVisited, nan) =
     (case getNode g v of
        None \<Rightarrow> Some (g, forwardVisited, nan)
      | Some label \<Rightarrow>
          (let currRank = (case layer label of Some l \<Rightarrow> Some l | None \<Rightarrow> nextRank);
               undefinedRank = (rank label = None \<and> v \<notin> nan);
               below = (case (rank label, currRank) of (Some r, Some c) \<Rightarrow> r < c | _ \<Rightarrow> False);
               s1 = (if undefinedRank \<or> below then writeRank v currRank (g, nan) else (g, nan))
           in if v \<in> forwardVisited then Some (fst s1, forwardVisited, snd s1)
              else forwardEdges n (getRelatedEdges g v Out) currRank
                     (fst s1, insert v forwardVisited, snd s1)))"
| "forwardEdges n [] currRank s = Some s"
| "forwardEdges n (e # es) currRank s =
     (case dfsForward n (target e) (plus_opt currRank (minlen e)) s of
        None \<Rightarrow> None
      | Some s' \<Rightarrow> forwardEdges n es currRank s')"

text \<open>
  The last loop, over all nodes in their order: a pinned node starts a \<open>dfsForward\<close> at
  its layer, any other node has \<open>minRank\<close> subtracted from its rank.
\<close>

fun layerLoop :: "nat \<Rightarrow> int \<Rightarrow> ID list \<Rightarrow> fstate \<Rightarrow> fstate option" where
  "layerLoop n minRk [] s = Some s"
| "layerLoop n minRk (v # rest) (g, forwardVisited, nan) =
     (case getNode g v of
        None \<Rightarrow> layerLoop n minRk rest (g, forwardVisited, nan)
      | Some label \<Rightarrow>
          (case layer label of
             Some l \<Rightarrow>
               (case dfsForward n v (Some l) (g, forwardVisited, nan) of
                  None \<Rightarrow> None
                | Some s' \<Rightarrow> layerLoop n minRk rest s')
           | None \<Rightarrow>
               (let s1 = writeRank v (minus_opt (rank label) (Some minRk)) (g, nan)
                in layerLoop n minRk rest (fst s1, forwardVisited, snd s1))))"

definition longestPathWithLayer :: "nat \<Rightarrow> Graph \<Rightarrow> Graph option" where
  "longestPathWithLayer fuel g =
     (case dfsLAll fuel (sourcesOf g) (g, set inheritedKeys, None) of
        None \<Rightarrow> None
      | Some (g1, visited, minRk) \<Rightarrow>
          map_option fst
            (layerLoop fuel (case minRk of None \<Rightarrow> 0 | Some m \<Rightarrow> m) (map nid (nodes g1))
               (g1, set inheritedKeys, {})))"

text \<open>
  \<open>feasibleTreeWithLayer\<close> is \<open>feasibleTree\<close> with \<open>tightTreeWithLayer\<close>, whose \<open>dfs\<close>
  also admits a neighbour that has a layer, whatever the slack.
\<close>

definition hasLayer :: "Graph \<Rightarrow> ID \<Rightarrow> bool" where
  "hasLayer g w = (case getNode g w of None \<Rightarrow> False | Some label \<Rightarrow> layer label \<noteq> None)"

fun tightDfsL :: "nat \<Rightarrow> Graph \<Rightarrow> ID \<Rightarrow> Graph \<Rightarrow> Graph option"
  and tightEdgesL :: "nat \<Rightarrow> Graph \<Rightarrow> ID \<Rightarrow> Edge list \<Rightarrow> Graph \<Rightarrow> Graph option" where
  "tightDfsL 0 g v t = None"
| "tightDfsL (Suc n) g v t = tightEdgesL n g v (getRelatedEdges g v Both) t"
| "tightEdgesL n g v [] t = Some t"
| "tightEdgesL n g v (e # es) t =
     (let edgeV = source e;
          w = (if v = edgeV then target e else edgeV)
      in if \<not> hasNode t w \<and> (hasLayer g w \<or> noSlack g e)
         then (case tightDfsL n g w (addEdge (addNode t (bareNode w)) (treeEdge (eid e) v w)) of
                 None \<Rightarrow> None
               | Some t' \<Rightarrow> tightEdgesL n g v es t')
         else tightEdgesL n g v es t)"

fun tightAllL :: "nat \<Rightarrow> Graph \<Rightarrow> ID list \<Rightarrow> Graph \<Rightarrow> Graph option" where
  "tightAllL n g [] t = Some t"
| "tightAllL n g (v # rest) t =
     (case tightDfsL n g v t of None \<Rightarrow> None | Some t' \<Rightarrow> tightAllL n g rest t')"

definition tightTreeWithLayer :: "nat \<Rightarrow> Graph \<Rightarrow> Graph \<Rightarrow> Graph option" where
  "tightTreeWithLayer depth t g = tightAllL depth g (map nid (nodes t)) t"

fun whileTightL :: "nat \<Rightarrow> nat \<Rightarrow> nat \<Rightarrow> Graph \<Rightarrow> Graph \<Rightarrow> (error + Graph \<times> Graph) option" where
  "whileTightL 0 depth sz t g = None"
| "whileTightL (Suc n) depth sz t g =
     (case tightTreeWithLayer depth t g of
        None \<Rightarrow> None
      | Some t' \<Rightarrow>
          if length (nodes t') < sz
          then (case findMinSlackEdge t' g of
                  None \<Rightarrow> Some (Inl TypeError)
                | Some edge \<Rightarrow> whileTightL n depth sz t' (shiftRanks t' g (deltaOf t' g edge)))
          else Some (Inr (t', g)))"

definition feasibleTreeWithLayer :: "nat \<Rightarrow> Graph \<Rightarrow> (error + Graph \<times> Graph) option" where
  "feasibleTreeWithLayer fuel g =
     (case nodes g of
        [] \<Rightarrow> Some (Inl TypeError)
      | start # _ \<Rightarrow> whileTightL fuel fuel (length (nodes g)) (addNode emptyGraph start) g)"

text \<open>A chain \<open>a \<rightarrow> b \<rightarrow> c\<close> whose middle node is pinned to layer five.\<close>

definition pinnedNode :: "ID \<Rightarrow> int \<Rightarrow> Node" where
  "pinnedNode v l = (bareNode v)\<lparr>layer := Some l\<rparr>"

definition pinnedChain :: Graph where
  "pinnedChain = graphOf [bareNode ''a'', pinnedNode ''b'' 5, bareNode ''c'']
                   [arc ''a'' ''b'' 1, arc ''b'' ''c'' 1]"

section \<open>Layer graphs (\<open>buildLayerGraph\<close>)\<close>

text \<open>
  The id of the synthetic root, which \<open>createRootNode\<close> draws at random until it is not
  an id of \<open>g\<close>, is an argument. A node is materialized when its rank is the requested
  one or its span \<open>[minRank, maxRank]\<close> covers it.
\<close>

definition materialized :: "Node \<Rightarrow> int \<Rightarrow> bool" where
  "materialized v r =
     (rank v = Some r \<or>
      (case (minRank v, maxRank v) of (Some lo, Some hi) \<Rightarrow> lo \<le> r \<and> r \<le> hi | _ \<Rightarrow> False))"

definition getParent :: "Graph \<Rightarrow> ID \<Rightarrow> Node option" where
  "getParent g v = (case parent g v of None \<Rightarrow> None | Some p \<Rightarrow> getNode g p)"

definition setParent :: "Graph \<Rightarrow> ID \<Rightarrow> ID \<Rightarrow> Graph" where
  "setParent r v p = r\<lparr>parent := (parent r)(v := Some p)\<rparr>"

text \<open>
  \<open>updateEdgeData(id, data)\<close> with \<open>data = {...edge.data, weight: w}\<close>, and
  \<open>updateNodeData(id, data)\<close>.
\<close>

definition updateEdgeData :: "Graph \<Rightarrow> ID \<Rightarrow> Edge \<Rightarrow> jsnum \<Rightarrow> Graph" where
  "updateEdgeData r i edge w =
     r\<lparr>edges := map (\<lambda>x. if eid x = i then x\<lparr>minlen := minlen edge, weight := w\<rparr> else x) (edges r)\<rparr>"

definition updateNodeData :: "Graph \<Rightarrow> ID \<Rightarrow> Node \<Rightarrow> Graph" where
  "updateNodeData r i n = r\<lparr>nodes := map (\<lambda>x. if nid x = i then n\<lparr>nid := i\<rparr> else x) (nodes r)\<rparr>"

text \<open>
  The body of the \<open>forEach\<close> over the edges of a materialized node \<open>v\<close>: the other end
  \<open>u\<close> is added if missing, and the edge from \<open>u\<close> to \<open>v\<close> of the result, the first one
  found among the edges out of \<open>u\<close>, is created with the weight of \<open>e\<close> or has that
  weight added to its own.
\<close>

definition aggregateEdge :: "Graph \<Rightarrow> ID \<Rightarrow> Edge \<Rightarrow> Graph \<Rightarrow> Graph" where
  "aggregateEdge g v e r =
     (let u = (if source e = v then target e else source e);
          r1 = (if \<not> hasNode r u
                then (case getNode g u of None \<Rightarrow> r | Some n \<Rightarrow> addNode r n) else r);
          edge = find (\<lambda>x. target x = v) (getRelatedEdges r1 u Out);
          w = (case edge of None \<Rightarrow> Fin 0 | Some x \<Rightarrow> weight x)
      in case edge of
           None \<Rightarrow> addEdge r1 \<lparr>eid = eid e, source = u, target = v, minlen = None,
                                weight = jadd (weight e) w\<rparr>
         | Some x \<Rightarrow> updateEdgeData r1 (eid x) x (jadd (weight e) w))"

text \<open>
  \<open>borderLeft[rank]\<close>: the element at that index, undefined outside the array. The
  result keeps it in the same field, as a list of one id.
\<close>

definition pickBorder :: "ID list \<Rightarrow> int \<Rightarrow> ID list option" where
  "pickBorder xs r = (if 0 \<le> r \<and> nat r < length xs then Some [xs ! nat r] else None)"

text \<open>
  The body of the \<open>forEach\<close> over the nodes. An id is falsy when it is the empty string.
  Indexing \<open>borderLeft\<close> or \<open>borderRight\<close> of a node that has \<open>minRank\<close> but not these
  arrays throws.
\<close>

definition layerNode :: "Graph \<Rightarrow> int \<Rightarrow> direction \<Rightarrow> ID \<Rightarrow> Node \<Rightarrow> Graph \<Rightarrow> error + Graph" where
  "layerNode g r dir rootId v result =
     (if materialized v r then
        (let par = (case getParent g (nid v) of
                      None \<Rightarrow> None
                    | Some p \<Rightarrow> if nid p = [] then None else Some p);
             r1 = (if \<not> hasNode result (nid v) then addNode result v else result);
             r2 = (case par of
                     None \<Rightarrow> r1
                   | Some p \<Rightarrow> if \<not> hasNode r1 (nid p) then addNode r1 p else r1);
             r3 = setParent r2 (nid v) (case par of None \<Rightarrow> rootId | Some p \<Rightarrow> nid p);
             r4 = fold (aggregateEdge g (nid v)) (getRelatedEdges g (nid v) dir) r3
         in if minRank v \<noteq> None
            then (case (borderLeft v, borderRight v) of
                    (Some bl, Some br) \<Rightarrow>
                      Inr (updateNodeData r4 (nid v)
                             (v\<lparr>borderLeft := pickBorder bl r, borderRight := pickBorder br r\<rparr>))
                  | _ \<Rightarrow> Inl TypeError)
            else Inr r4)
      else Inr result)"

fun layerNodes :: "Graph \<Rightarrow> int \<Rightarrow> direction \<Rightarrow> ID \<Rightarrow> Node list \<Rightarrow> Graph \<Rightarrow> error + Graph" where
  "layerNodes g r dir rootId [] result = Inr result"
| "layerNodes g r dir rootId (v # rest) result =
     (case layerNode g r dir rootId v result of
        Inl x \<Rightarrow> Inl x
      | Inr result' \<Rightarrow> layerNodes g r dir rootId rest result')"

definition buildLayerGraph :: "ID \<Rightarrow> Graph \<Rightarrow> int \<Rightarrow> direction \<Rightarrow> error + Graph" where
  "buildLayerGraph rootId g r dir =
     layerNodes g r dir rootId (nodes g)
       \<lparr>nodes = [bareNode rootId], edges = [], parent = (\<lambda>_. None)\<rparr>"

text \<open>The sum of a list of weights, in the order in which they are added.\<close>

definition sumWeights :: "jsnum list \<Rightarrow> jsnum" where
  "sumWeights ws = foldl (\<lambda>acc w. jadd w acc) (Fin 0) ws"

text \<open>
  Two ranks joined by three edges, two of them between the same pair of nodes.
\<close>

definition rankedNode :: "ID \<Rightarrow> int \<Rightarrow> Node" where
  "rankedNode v r = (bareNode v)\<lparr>rank := Some r\<rparr>"

definition weighted :: "ID \<Rightarrow> ID \<Rightarrow> ID \<Rightarrow> rat \<Rightarrow> Edge" where
  "weighted i u w x = \<lparr>eid = i, source = u, target = w, minlen = Some 1, weight = Fin x\<rparr>"

definition doubled :: Graph where
  "doubled = graphOf [rankedNode ''p'' 0, rankedNode ''q'' 0, rankedNode ''x'' 1, rankedNode ''y'' 1]
               [weighted ''e1'' ''p'' ''x'' 2, weighted ''e2'' ''q'' ''x'' 1,
                weighted ''e3'' ''p'' ''x'' 5, weighted ''e4'' ''p'' ''y'' 1]"

section \<open>The collaborators of \<open>order\<close> on a graph\<close>

text \<open>
  The functions that \<open>order\<close> drives, on the graph itself. A step that has thrown is
  \<open>Inl\<close> of the exception, a walk that has run out of its bound is \<open>None\<close>; every later
  step hands either on, so that the state is \<open>(error + Graph) option\<close> and a layering is
  \<open>(error + layering) option\<close>.

  Sorting is stable, as \<open>Array.prototype.sort\<close> is: \<open>sortBy\<close> inserts each element
  behind the elements that are not greater than it.
\<close>

fun insertBy :: "('a \<Rightarrow> 'a \<Rightarrow> bool) \<Rightarrow> 'a \<Rightarrow> 'a list \<Rightarrow> 'a list" where
  "insertBy gt x [] = [x]"
| "insertBy gt x (y # ys) = (if gt y x then x # y # ys else y # insertBy gt x ys)"

definition sortBy :: "('a \<Rightarrow> 'a \<Rightarrow> bool) \<Rightarrow> 'a list \<Rightarrow> 'a list" where
  "sortBy gt xs = foldl (\<lambda>acc x. insertBy gt x acc) [] xs"

text \<open>
  \<open>initOrder\<close>. The ranks of the graph handed to \<open>order\<close> are numbers or undefined. The
  comparators are \<open>a.rank - b.rank\<close> and \<open>a.fixorder - b.fixorder\<close>; with an undefined side
  the difference is NaN, which counts as equal. \<open>layers[rank].push\<close> throws when the
  rank is negative, since there is no such row. \<open>visited\<close> is tested with
  \<open>hasOwnProperty\<close>, so only the keys written count, and writing the key \<open>__proto__\<close>
  leaves no key.
\<close>

definition rankGt :: "Node \<Rightarrow> Node \<Rightarrow> bool" where
  "rankGt a b = (case (rank a, rank b) of (Some x, Some y) \<Rightarrow> y < x | _ \<Rightarrow> False)"

definition fixorderGt :: "Node \<Rightarrow> Node \<Rightarrow> bool" where
  "fixorderGt a b = (case (fixorder a, fixorder b) of (Some x, Some y) \<Rightarrow> y < x | _ \<Rightarrow> False)"

definition mark :: "ID \<Rightarrow> ID set \<Rightarrow> ID set" where
  "mark v visited = (if v = ''__proto__'' then visited else insert v visited)"

definition pushLayer :: "Node \<Rightarrow> layering \<Rightarrow> error + layering" where
  "pushLayer n rows =
     (case rank n of
        None \<Rightarrow> Inr rows
      | Some r \<Rightarrow> if 0 \<le> r \<and> nat r < length rows
                  then Inr (rows[nat r := rows ! nat r @ [nid n]]) else Inl TypeError)"

text \<open>
  Modelled from the spec: \<open>dfsTree\<close> of the graph library is not among the sources. The
  specification of \<open>initOrder\<close> calls it a hierarchy-aware depth-first traversal: it
  hands the node to the callback and goes on to the children of the node in the
  hierarchy, unless the callback returns true. The callback of \<open>initOrder\<close> is built in.
  The first argument bounds the depth.
\<close>

definition getChildren :: "Graph \<Rightarrow> ID \<Rightarrow> ID list" where
  "getChildren g v = map nid (filter (\<lambda>n. parent g (nid n) = Some v) (nodes g))"

fun dfsTree :: "nat \<Rightarrow> Graph \<Rightarrow> ID \<Rightarrow> ID set \<times> layering \<Rightarrow> (error + ID set \<times> layering) option"
  and dfsTrees :: "nat \<Rightarrow> Graph \<Rightarrow> ID list \<Rightarrow> ID set \<times> layering
                     \<Rightarrow> (error + ID set \<times> layering) option" where
  "dfsTree 0 g v s = None"
| "dfsTree (Suc n) g v s =
     (case getNode g v of
        None \<Rightarrow> Some (Inr s)
      | Some node \<Rightarrow>
          if v \<in> fst s then Some (Inr s)
          else (case pushLayer node (snd s) of
                  Inl x \<Rightarrow> Some (Inl x)
                | Inr rows \<Rightarrow> dfsTrees n g (getChildren g v) (mark v (fst s), rows)))"
| "dfsTrees n g [] s = Some (Inr s)"
| "dfsTrees n g (v # rest) s =
     (case dfsTree n g v s of
        None \<Rightarrow> None
      | Some (Inl x) \<Rightarrow> Some (Inl x)
      | Some (Inr s') \<Rightarrow> dfsTrees n g rest s')"

fun placeFixed :: "Node list \<Rightarrow> ID set \<times> layering \<Rightarrow> error + ID set \<times> layering" where
  "placeFixed [] s = Inr s"
| "placeFixed (n # rest) s =
     (case pushLayer n (snd s) of
        Inl x \<Rightarrow> Inl x
      | Inr rows \<Rightarrow> placeFixed rest (mark (nid n) (fst s), rows))"

definition maxRankOf :: "Graph \<Rightarrow> int option" where
  "maxRankOf g =
     foldl (\<lambda>m n. case (m, rank n) of
                     (_, None) \<Rightarrow> m
                   | (None, Some r) \<Rightarrow> Some r
                   | (Some k, Some r) \<Rightarrow> Some (max k r)) None (nodes g)"

definition rowsFor :: "int option \<Rightarrow> layering" where
  "rowsFor m = (case m of None \<Rightarrow> [] | Some k \<Rightarrow> replicate (nat (k + 1)) [])"

definition initOrderOf :: "Graph \<Rightarrow> (error + layering) option" where
  "initOrderOf g =
     (let orderedVs = sortBy rankGt (nodes g);
          fixOrderNodes = sortBy fixorderGt (filter (\<lambda>n. fixorder n \<noteq> None) orderedVs)
      in case placeFixed fixOrderNodes ({}, rowsFor (maxRankOf g)) of
           Inl x \<Rightarrow> Some (Inl x)
         | Inr s \<Rightarrow>
             (case dfsTrees (Suc (length (nodes g))) g (map nid orderedVs) s of
                None \<Rightarrow> None
              | Some (Inl x) \<Rightarrow> Some (Inl x)
              | Some (Inr s') \<Rightarrow> Some (Inr (snd s'))))"

text \<open>\<open>assignOrder\<close>: the index of every node in its row becomes its \<open>order\<close>.\<close>

definition setOrder :: "Graph \<Rightarrow> ID \<Rightarrow> nat \<Rightarrow> Graph" where
  "setOrder g v i =
     g\<lparr>nodes := map (\<lambda>n. if nid n = v then n\<lparr>norder := Fin (of_nat i)\<rparr> else n) (nodes g)\<rparr>"

definition assignRow :: "ID list \<Rightarrow> Graph \<Rightarrow> Graph" where
  "assignRow row g = fold (\<lambda>p g'. setOrder g' (fst p) (snd p)) (zip row [0 ..< length row]) g"

definition assignOrderOf :: "Graph \<Rightarrow> layering \<Rightarrow> Graph" where
  "assignOrderOf g rows = fold assignRow rows g"

text \<open>
  \<open>barycenter\<close>: the order of the source of an incoming edge, weighted. The source of
  an edge of a layer graph is one of its nodes; the order of a node that is not there
  is given the value NaN.
\<close>

definition orderOf :: "Graph \<Rightarrow> ID \<Rightarrow> jsnum" where
  "orderOf g v = (case getNode g v of None \<Rightarrow> NaN | Some n \<Rightarrow> norder n)"

definition barycenterOf :: "Graph \<Rightarrow> ID list \<Rightarrow> BaryEntry list" where
  "barycenterOf g movable =
     map (\<lambda>v. let inV = getRelatedEdges g v In
              in if inV = [] then \<lparr>entry_v = v, entry_barycenter = None, entry_weight = None\<rparr>
                 else (let total = foldl (\<lambda>acc e. jadd acc (jmul (weight e) (orderOf g (source e))))
                                     (Fin 0) inV;
                           w = foldl (\<lambda>acc e. jadd acc (weight e)) (Fin 0) inV
                       in \<lparr>entry_v = v, entry_barycenter = Some (jdiv total w),
                           entry_weight = Some w\<rparr>))
         movable"

text \<open>
  Modelled from the spec: \<open>sortSubgraph\<close> and the \<open>sort\<close> it ends with are not among the
  sources. By its contract it computes the barycenters of the movable members of the
  root, resolves conflicts against the constraint graph, sorts the entries by
  barycenter ascending, ties broken by the bias (to the left the lower original index
  first, to the right the higher), and flattens the blocks; the entries without a
  barycenter keep their place, each put where as many nodes stand before it as its
  original index says. Only a layer graph without nested subgraphs is modelled, and
  \<open>keepNodeOrder\<close> is taken to be unset; the prior order that \<open>usePrev\<close> adds to the
  ties has nothing left to decide, the original indices being distinct.
\<close>

definition baryGt :: "bool \<Rightarrow> Resolved \<Rightarrow> Resolved \<Rightarrow> bool" where
  "baryGt biasRight a b =
     (case (r_barycenter a, r_barycenter b) of
        (Some x, Some y) \<Rightarrow>
          jgt x y \<or> (\<not> jgt y x \<and> (if biasRight then r_i a < r_i b else r_i b < r_i a))
      | _ \<Rightarrow> False)"

fun place :: "Resolved list \<Rightarrow> Resolved list \<Rightarrow> nat \<Rightarrow> ID list" where
  "place [] [] k = []"
| "place [] (u # us) k = r_vs u @ place [] us (k + 1)"
| "place (x # xs) [] k = r_vs x @ place xs [] (k + length (r_vs x))"
| "place (x # xs) (u # us) k =
     (if r_i u \<le> k then r_vs u @ place (x # xs) us (k + 1)
      else r_vs x @ place xs (u # us) (k + length (r_vs x)))"

definition sortEntries :: "Resolved list \<Rightarrow> bool \<Rightarrow> ID list" where
  "sortEntries entries biasRight =
     place (sortBy (baryGt biasRight) (filter (\<lambda>e. r_barycenter e \<noteq> None) entries))
           (sortBy (\<lambda>a b. r_i b < r_i a) (filter (\<lambda>e. r_barycenter e = None) entries)) 0"

definition sortSubgraph :: "Graph \<Rightarrow> ID \<Rightarrow> Graph \<Rightarrow> bool \<Rightarrow> bool \<Rightarrow> ID list" where
  "sortSubgraph lg v cg biasRight usePrev =
     sortEntries (resolveConflicts (barycenterOf lg (getChildren lg v)) cg) biasRight"

text \<open>
  Modelled from the spec: \<open>addSubgraphConstraints\<close> is not among the sources. By its
  contract it adds constraints between the border proxies of subgraphs; a layer graph
  without nested subgraphs has none, and the constraint graph stays as it is.
\<close>

definition addSubgraphConstraints :: "Graph \<Rightarrow> Graph \<Rightarrow> ID list \<Rightarrow> Graph" where
  "addSubgraphConstraints lg cg sortedVs = cg"

text \<open>
  \<open>sweepLayerGraphs\<close>. The layer graphs are built once, before the loops, but their
  nodes share the data of the nodes of the graph, and the graph changes in the \<open>order\<close>
  of its nodes only: at each sweep a layer graph is the one that \<open>buildLayerGraph\<close>
  builds from the graph as it is then. The root of a layer graph, \<open>getRoots()[0]\<close>, is
  its synthetic root, the first node put into it. The downward layer graphs are those
  of the ranks \<open>1, \<dots>, maxRank\<close> with the incoming edges, the upward ones those of the
  ranks \<open>maxRank - 1, \<dots>, 0\<close> with the outgoing edges.
\<close>

definition writeOrders :: "Graph \<Rightarrow> ID list \<Rightarrow> Graph \<Rightarrow> Graph" where
  "writeOrders lg sortedVs g =
     fold (\<lambda>p g'. if hasNode lg (fst p) then setOrder g' (fst p) (snd p) else g')
          (zip sortedVs [0 ..< length sortedVs]) g"

fun sweepRanks :: "ID \<Rightarrow> direction \<Rightarrow> bool \<Rightarrow> bool \<Rightarrow> int list \<Rightarrow> Graph \<times> Graph \<Rightarrow> error + Graph" where
  "sweepRanks rootId dir biasRight usePrev [] s = Inr (fst s)"
| "sweepRanks rootId dir biasRight usePrev (r # rest) s =
     (case buildLayerGraph rootId (fst s) r dir of
        Inl x \<Rightarrow> Inl x
      | Inr lg \<Rightarrow>
          (let sortedVs = sortSubgraph lg rootId (snd s) biasRight usePrev
           in sweepRanks rootId dir biasRight usePrev rest
                (writeOrders lg sortedVs (fst s), addSubgraphConstraints lg (snd s) sortedVs)))"

definition layerRanks :: "Graph \<Rightarrow> bool \<Rightarrow> int list" where
  "layerRanks g down =
     (case maxRankOf g of
        None \<Rightarrow> []
      | Some m \<Rightarrow> if down then [1 .. m] else rev [0 .. m - 1])"

definition sweepLayerGraphsOf :: "ID \<Rightarrow> bool \<Rightarrow> bool \<Rightarrow> bool \<Rightarrow> Graph \<Rightarrow> error + Graph" where
  "sweepLayerGraphsOf rootId down biasRight usePrev g =
     sweepRanks rootId (if down then In else Out) biasRight usePrev (layerRanks g down)
       (g, emptyGraph)"

text \<open>
  Modelled from the spec: \<open>buildLayerMatrix\<close> and \<open>maxRank\<close> of \<open>../util\<close> and \<open>crossCount\<close>
  are not among the sources. By the specification \<open>maxRank\<close> is the greatest rank of a
  node, the layering matrix has one row for each rank from zero to it, holding the
  nodes of the rank by ascending \<open>order\<close>, and \<open>crossCount\<close> adds up, over the pairs of
  adjacent rows, the pairs of edges between the two rows whose ends stand in opposite
  order in the upper and in the lower row.
\<close>

definition orderGt :: "Node \<Rightarrow> Node \<Rightarrow> bool" where
  "orderGt a b = jgt (norder a) (norder b)"

definition buildLayerMatrixOf :: "Graph \<Rightarrow> layering" where
  "buildLayerMatrixOf g =
     (case maxRankOf g of
        None \<Rightarrow> []
      | Some m \<Rightarrow>
          map (\<lambda>r. map nid (sortBy orderGt (filter (\<lambda>n. rank n = Some r) (nodes g)))) [0 .. m])"

definition place_of :: "ID list \<Rightarrow> ID \<Rightarrow> nat option" where
  "place_of row v = (if v \<in> set row then Some (length (takeWhile (\<lambda>x. x \<noteq> v) row)) else None)"

fun inversions :: "(nat \<times> nat) list \<Rightarrow> nat" where
  "inversions [] = 0"
| "inversions (p # ps) =
     length (filter (\<lambda>q. (fst p < fst q \<and> snd q < snd p) \<or> (fst q < fst p \<and> snd p < snd q)) ps)
     + inversions ps"

definition twoLayerCrossCount :: "Graph \<Rightarrow> ID list \<Rightarrow> ID list \<Rightarrow> nat" where
  "twoLayerCrossCount g north south =
     inversions
       (List.map_filter
          (\<lambda>e. case (place_of north (source e), place_of south (target e)) of
                 (Some a, Some b) \<Rightarrow> Some (a, b)
               | _ \<Rightarrow> None)
          (edges g))"

fun crossCountOf :: "Graph \<Rightarrow> layering \<Rightarrow> nat" where
  "crossCountOf g (north # south # rest) =
     twoLayerCrossCount g north south + crossCountOf g (south # rest)"
| "crossCountOf g _ = 0"

text \<open>
  The collaborators of \<open>order\<close> on a graph, for a root id. A state that is not a graph,
  and a layering that is not a matrix, are handed on; their crossing count is not read.
\<close>

definition onGraph :: "(Graph \<Rightarrow> (error + 'a) option) \<Rightarrow> (error + Graph) option \<Rightarrow> (error + 'a) option" where
  "onGraph f w = (case w of None \<Rightarrow> None | Some (Inl x) \<Rightarrow> Some (Inl x) | Some (Inr g) \<Rightarrow> f g)"

definition dagre :: "ID \<Rightarrow> ((error + Graph) option, (error + layering) option) collaborators" where
  "dagre rootId =
     \<lparr>initOrder = onGraph initOrderOf,
      assignOrder = (\<lambda>w l. onGraph (\<lambda>g. case l of
                                          None \<Rightarrow> None
                                        | Some (Inl x) \<Rightarrow> Some (Inl x)
                                        | Some (Inr rows) \<Rightarrow> Some (Inr (assignOrderOf g rows))) w),
      sweepLayerGraphs = (\<lambda>down biasRight usePrev.
                            onGraph (\<lambda>g. Some (sweepLayerGraphsOf rootId down biasRight usePrev g))),
      buildLayerMatrix = onGraph (\<lambda>g. Some (Inr (buildLayerMatrixOf g))),
      crossCount = (\<lambda>w l. case (w, l) of
                            (Some (Inr g), Some (Inr rows)) \<Rightarrow> crossCountOf g rows
                          | _ \<Rightarrow> 0)\<rparr>"

text \<open>
  Three ranks of three, four and three nodes, every edge of weight one. The nodes stand
  in the order in which \<open>initOrder\<close> lists them.
\<close>

definition link :: "ID \<Rightarrow> ID \<Rightarrow> Edge" where
  "link u w = \<lparr>eid = u @ w, source = u, target = w, minlen = Some 1, weight = Fin 1\<rparr>"

definition threeRows :: Graph where
  "threeRows =
     graphOf [rankedNode ''a0'' 0, rankedNode ''a2'' 0, rankedNode ''a1'' 0,
              rankedNode ''b2'' 1, rankedNode ''b0'' 1, rankedNode ''b3'' 1, rankedNode ''b1'' 1,
              rankedNode ''c1'' 2, rankedNode ''c0'' 2, rankedNode ''c2'' 2]
       [link ''a0'' ''b2'', link ''a0'' ''b0'', link ''a0'' ''b3'', link ''a2'' ''b2'',
        link ''a2'' ''b3'', link ''a1'' ''b3'', link ''a1'' ''b1'', link ''b2'' ''c1'',
        link ''b2'' ''c0'', link ''b0'' ''c1'', link ''b0'' ''c0'', link ''b0'' ''c2'',
        link ''b3'' ''c2'', link ''b1'' ''c0'', link ''b1'' ''c2'']"

text \<open>Two nodes of rank zero and no edge.\<close>

definition sideBySide :: Graph where
  "sideBySide = graphOf [rankedNode ''a'' 0, rankedNode ''b'' 0] []"

section \<open>Facts about the ordering loop\<close>

text \<open>
  \<open>snapshot\<close>: either nothing was recorded yet, or \<open>best\<close> is a layering that was
  measured after a sweep and \<open>bestCC\<close> is the count measured for it.
\<close>

definition snapshot :: "('w, 'l) collaborators \<Rightarrow> ('w, 'l) climb \<Rightarrow> bool" where
  "snapshot cs s =
     ((best s = None \<and> bestCC s = \<infinity>) \<or>
      (\<exists>w. best s = Some (buildLayerMatrix cs w)
           \<and> bestCC s = enat (crossCount cs w (buildLayerMatrix cs w))))"

lemma hillClimb_unfold:
  "lastBest s < 4 \<Longrightarrow> hillClimb cs usePrev s = hillClimb cs usePrev (iteration cs usePrev s)"
  by (subst hillClimb.simps) simp

lemma hillClimb_exit: "\<not> lastBest s < 4 \<Longrightarrow> hillClimb cs usePrev s = s"
  by (subst hillClimb.simps) simp

lemma iter_iteration: "iter (iteration cs usePrev s) = iter s + 1"
  by (simp add: iteration_def forUpdate_def body_def Let_def)

lemma bestCC_hillClimb: "bestCC (hillClimb cs usePrev s) \<le> bestCC s"
proof (induction cs usePrev s rule: hillClimb.induct)
  case (1 cs usePrev s)
  show ?case
  proof (cases "lastBest s < 4")
    case True
    then have "bestCC (hillClimb cs usePrev s) \<le> bestCC (iteration cs usePrev s)"
      using "1.IH" by (simp add: hillClimb_unfold)
    also have "\<dots> \<le> bestCC s" by (rule bestCC_iteration)
    finally show ?thesis .
  next
    case False
    then show ?thesis by (simp add: hillClimb_exit)
  qed
qed

lemma snapshot_iteration: "snapshot cs s \<Longrightarrow> snapshot cs (iteration cs usePrev s)"
  unfolding snapshot_def iteration_def forUpdate_def body_def Let_def cc_def
  by (cases "enat (crossCount cs (measured cs usePrev s) (buildLayerMatrix cs (measured cs usePrev s))) < bestCC s")
     auto

lemma snapshot_hillClimb: "snapshot cs s \<Longrightarrow> snapshot cs (hillClimb cs usePrev s)"
proof (induction cs usePrev s rule: hillClimb.induct)
  case (1 cs usePrev s)
  show ?case
  proof (cases "lastBest s < 4")
    case True
    then show ?thesis
      using "1.IH" "1.prems" by (simp add: hillClimb_unfold snapshot_iteration)
  next
    case False
    then show ?thesis using "1.prems" by (simp add: hillClimb_exit)
  qed
qed

lemma bestCC_afterLoops:
  "bestCC (afterLoops cs g) \<le> enat (cc cs False (beforeFirstLoop cs g))"
proof -
  let ?s0 = "beforeFirstLoop cs g"
  let ?s1 = "hillClimb cs False ?s0"
  have "bestCC (afterLoops cs g) \<le> bestCC (beforeSecondLoop cs ?s1)"
    unfolding afterLoops_def by (rule bestCC_hillClimb)
  also have "\<dots> = bestCC ?s1" by (simp add: beforeSecondLoop_def)
  also have "?s1 = hillClimb cs False (iteration cs False ?s0)"
    by (rule hillClimb_unfold) (simp add: beforeFirstLoop_def)
  also have "bestCC \<dots> \<le> bestCC (iteration cs False ?s0)" by (rule bestCC_hillClimb)
  also have "\<dots> = enat (cc cs False ?s0)"
    by (simp add: iteration_def forUpdate_def body_def Let_def beforeFirstLoop_def)
  finally show ?thesis .
qed

lemma snapshot_afterLoops: "snapshot cs (afterLoops cs g)"
proof -
  have "snapshot cs (beforeFirstLoop cs g)"
    by (simp add: snapshot_def beforeFirstLoop_def)
  then have "snapshot cs (hillClimb cs False (beforeFirstLoop cs g))"
    by (rule snapshot_hillClimb)
  then have "snapshot cs (beforeSecondLoop cs (hillClimb cs False (beforeFirstLoop cs g)))"
    by (simp add: snapshot_def beforeSecondLoop_def)
  then show ?thesis unfolding afterLoops_def by (rule snapshot_hillClimb)
qed

text \<open>
  When a loop stops: an iteration that improves sets \<open>lastBest\<close> to zero and the loop's
  update makes it one, so if the three iterations after an improving one do not
  improve, the loop ends with the third of them; a loop entered with \<open>lastBest = 0\<close>
  whose first four iterations do not improve ends with the fourth.
\<close>

lemma hillClimb_window:
  "(lastBest s < 4 \<and> improves cs usePrev s
      \<and> \<not> improves cs usePrev (iteration cs usePrev s)
      \<and> \<not> improves cs usePrev (iteration cs usePrev (iteration cs usePrev s))
      \<and> \<not> improves cs usePrev (iteration cs usePrev (iteration cs usePrev (iteration cs usePrev s)))
     \<longrightarrow> hillClimb cs usePrev s
           = iteration cs usePrev (iteration cs usePrev (iteration cs usePrev (iteration cs usePrev s)))
         \<and> iter (hillClimb cs usePrev s) = iter (iteration cs usePrev s) + 3)
   \<and> (lastBest s = 0 \<and> \<not> improves cs usePrev s
      \<and> \<not> improves cs usePrev (iteration cs usePrev s)
      \<and> \<not> improves cs usePrev (iteration cs usePrev (iteration cs usePrev s))
      \<and> \<not> improves cs usePrev (iteration cs usePrev (iteration cs usePrev (iteration cs usePrev s)))
     \<longrightarrow> hillClimb cs usePrev s
           = iteration cs usePrev (iteration cs usePrev (iteration cs usePrev (iteration cs usePrev s)))
         \<and> iter (hillClimb cs usePrev s) = iter s + 4)"
proof -
  let ?it = "iteration cs usePrev"
  have run: "hillClimb cs usePrev s = ?it (?it (?it (?it s)))"
    if "lastBest s < 4" "lastBest (?it s) = 1"
       "\<not> improves cs usePrev (?it s)" "\<not> improves cs usePrev (?it (?it s))"
       "\<not> improves cs usePrev (?it (?it (?it s)))"
  proof -
    have l2: "lastBest (?it (?it s)) = 2"
      using that by (simp add: lastBest_iteration improves_def)
    have l3: "lastBest (?it (?it (?it s))) = 3"
      using that l2 by (simp add: lastBest_iteration improves_def)
    have l4: "lastBest (?it (?it (?it (?it s)))) = 4"
      using that l3 by (simp add: lastBest_iteration improves_def)
    have "hillClimb cs usePrev s = hillClimb cs usePrev (?it s)"
      using that by (simp add: hillClimb_unfold)
    also have "\<dots> = hillClimb cs usePrev (?it (?it s))"
      using that by (simp add: hillClimb_unfold)
    also have "\<dots> = hillClimb cs usePrev (?it (?it (?it s)))"
      using l2 by (simp add: hillClimb_unfold)
    also have "\<dots> = hillClimb cs usePrev (?it (?it (?it (?it s))))"
      using l3 by (simp add: hillClimb_unfold)
    also have "\<dots> = ?it (?it (?it (?it s)))"
      using l4 by (simp add: hillClimb_exit)
    finally show ?thesis .
  qed
  show ?thesis
  proof (intro conjI impI)
    assume a: "lastBest s < 4 \<and> improves cs usePrev s
      \<and> \<not> improves cs usePrev (?it s) \<and> \<not> improves cs usePrev (?it (?it s))
      \<and> \<not> improves cs usePrev (?it (?it (?it s)))"
    then have "lastBest (?it s) = 1" by (simp add: lastBest_iteration improves_def)
    with a show h: "hillClimb cs usePrev s = ?it (?it (?it (?it s)))" by (intro run) simp_all
    show "iter (hillClimb cs usePrev s) = iter (?it s) + 3"
      unfolding h by (simp add: iter_iteration)
  next
    assume a: "lastBest s = 0 \<and> \<not> improves cs usePrev s
      \<and> \<not> improves cs usePrev (?it s) \<and> \<not> improves cs usePrev (?it (?it s))
      \<and> \<not> improves cs usePrev (?it (?it (?it s)))"
    then have "lastBest (?it s) = 1" by (simp add: lastBest_iteration improves_def)
    with a show h: "hillClimb cs usePrev s = ?it (?it (?it (?it s)))" by (intro run) simp_all
    show "iter (hillClimb cs usePrev s) = iter s + 4"
      unfolding h by (simp add: iter_iteration)
  qed
qed
section \<open>Facts about \<open>longestPath\<close>\<close>

text \<open>
  What the claims speak of: the ids of a graph, its edge relation, a well-formed graph
  (ids of nodes and of edges are unique, edges end at nodes), a graph that differs from
  another in node data only, the preconditions of ranking (a well-formed acyclic graph
  whose edges carry a \<open>minlen\<close> of at least one), and feasible ranks (every edge has a
  slack, and it is not negative).
\<close>

definition ids :: "Graph \<Rightarrow> ID set" where
  "ids g = set (map nid (nodes g))"

definition edgeRel :: "Graph \<Rightarrow> (ID \<times> ID) set" where
  "edgeRel g = (\<lambda>e. (source e, target e)) ` set (edges g)"

definition wellFormed :: "Graph \<Rightarrow> bool" where
  "wellFormed g =
     (distinct (map nid (nodes g)) \<and> distinct (map eid (edges g)) \<and>
      (\<forall>e \<in> set (edges g). source e \<in> ids g \<and> target e \<in> ids g))"

definition same :: "Graph \<Rightarrow> Graph \<Rightarrow> bool" where
  "same g0 g = (edges g = edges g0 \<and> map nid (nodes g) = map nid (nodes g0))"

lemma same_refl: "same g g" by (simp add: same_def)

lemma same_ids: "same g0 g \<Longrightarrow> ids g = ids g0" by (simp add: same_def ids_def)

lemma getNode_None: "getNode g v = None \<longleftrightarrow> v \<notin> ids g"
  by (auto simp: getNode_def ids_def find_None_iff)

lemma getNode_Some: "getNode g v = Some n \<Longrightarrow> nid n = v \<and> n \<in> set (nodes g)"
  by (auto simp: getNode_def find_Some_iff)

lemma nids_setRank: "map nid (nodes (setRank g v r)) = map nid (nodes g)"
  by (induction "nodes g") (auto simp: setRank_def)

lemma edges_setRank: "edges (setRank g v r) = edges g"
  by (simp add: setRank_def)

lemma same_setRank: "same g0 g \<Longrightarrow> same g0 (setRank g v r)"
  by (simp add: same_def nids_setRank edges_setRank)

lemma find_map_rank:
  "find (\<lambda>n. nid n = u) (map (\<lambda>n. if nid n = v then n\<lparr>rank := r\<rparr> else n) ns)
   = map_option (\<lambda>n. if nid n = v then n\<lparr>rank := r\<rparr> else n) (find (\<lambda>n. nid n = u) ns)"
  by (induction ns) auto

lemma rankOf_setRank:
  "rankOf (setRank g v r) u = (if u = v \<and> v \<in> ids g then r else rankOf g u)"
proof (cases "getNode g u")
  case None
  then show ?thesis
    using getNode_None [of g u]
    by (auto simp: rankOf_def setRank_def getNode_def find_map_rank)
next
  case (Some n)
  then show ?thesis
    using getNode_Some [OF Some]
    by (auto simp: rankOf_def setRank_def getNode_def find_map_rank ids_def)
qed


definition rankable :: "Graph \<Rightarrow> bool" where
  "rankable g =
     (wellFormed g \<and> acyclic (edgeRel g) \<and>
      (\<forall>e \<in> set (edges g). case minlen e of None \<Rightarrow> False | Some m \<Rightarrow> 1 \<le> m))"

lemma rankable_iff:
  "rankable g \<longleftrightarrow>
     (wellFormed g \<and> acyclic (edgeRel g) \<and> (\<forall>e \<in> set (edges g). \<exists>m. minlen e = Some m \<and> 1 \<le> m))"
  by (auto simp: rankable_def split: option.splits)

definition finished :: "Graph \<Rightarrow> Graph \<Rightarrow> ID set \<Rightarrow> bool" where
  "finished g0 g F =
     (\<forall>v \<in> F. \<exists>r. rankOf g v = Some r \<and> r \<le> 0 \<and>
        (\<forall>e \<in> set (edges g0). source e = v \<longrightarrow>
           target e \<in> F \<and>
           (\<exists>rw m. rankOf g (target e) = Some rw \<and> minlen e = Some m \<and> r \<le> rw - m)))"

definition dfsPre :: "Graph \<Rightarrow> ID set \<Rightarrow> Graph \<Rightarrow> ID set \<Rightarrow> bool" where
  "dfsPre g0 A g visited =
     (same g0 g \<and> A \<subseteq> visited \<and> visited \<subseteq> ids g0 \<and> finished g0 g (visited - A))"

definition dfsPost :: "Graph \<Rightarrow> ID set \<Rightarrow> Graph \<Rightarrow> ID set \<Rightarrow> Graph \<Rightarrow> ID set \<Rightarrow> bool" where
  "dfsPost g0 A g visited g' visited' =
     (dfsPre g0 A g' visited' \<and> visited \<subseteq> visited' \<and> (\<forall>u \<in> visited. rankOf g' u = rankOf g u))"

definition dfsOK :: "Graph \<Rightarrow> nat \<Rightarrow> bool" where
  "dfsOK g0 n =
     (\<forall>v g visited A.
        dfsPre g0 A g visited \<and> v \<in> ids g0 \<and> (\<forall>a \<in> A. (v, a) \<notin> (edgeRel g0)\<^sup>*) \<and>
        card (ids g0 - visited) < n \<longrightarrow>
        (\<exists>r g' visited'. dfs n v (g, visited) = Some (Some r, g', visited') \<and>
           dfsPost g0 A g visited g' visited' \<and> v \<in> visited' - A \<and> rankOf g' v = Some r))"

lemma finished_rank:
  "finished g0 g F \<Longrightarrow> v \<in> F \<Longrightarrow> rankOf g v = Some r \<Longrightarrow> r \<le> 0"
  unfolding finished_def by fastforce

definition accOK :: "int option \<Rightarrow> bool" where
  "accOK a = (case a of None \<Rightarrow> True | Some k \<Rightarrow> k < 0)"

lemma finite_ids: "finite (ids g)" by (simp add: ids_def)

lemma card_unvisited_mono:
  "visited \<subseteq> visited' \<Longrightarrow> card (ids g - visited') \<le> card (ids g - visited)"
  by (rule card_mono) (auto simp: finite_ids)

definition edgesPost ::
  "Graph \<Rightarrow> ID set \<Rightarrow> Edge list \<Rightarrow> int option \<Rightarrow> Graph \<Rightarrow> ID set
     \<Rightarrow> int option \<Rightarrow> Graph \<Rightarrow> ID set \<Rightarrow> bool" where
  "edgesPost g0 A es a g visited a' g' visited' =
     (dfsPost g0 A g visited g' visited' \<and> accOK a' \<and>
      (\<forall>k. a = Some k \<longrightarrow> (\<exists>k'. a' = Some k' \<and> k' \<le> k)) \<and>
      (\<forall>e \<in> set es. target e \<in> visited' - A \<and>
         (\<exists>rw m k. rankOf g' (target e) = Some rw \<and> minlen e = Some m \<and> a' = Some k \<and> k \<le> rw - m)))"

lemma dfsEdges_ok:
  assumes ok: "dfsOK g0 n" and rk: "rankable g0"
  shows "dfsPre g0 A g visited \<Longrightarrow> accOK a \<Longrightarrow>
     (\<forall>e \<in> set es. e \<in> set (edges g0) \<and> (\<forall>x \<in> A. (target e, x) \<notin> (edgeRel g0)\<^sup>*)) \<Longrightarrow>
     card (ids g0 - visited) < n \<Longrightarrow>
     \<exists>a' g' visited'. dfsEdges n es a (g, visited) = Some (a', g', visited') \<and>
        edgesPost g0 A es a g visited a' g' visited'"
proof (induction es arbitrary: a g visited)
  case Nil
  then show ?case by (auto simp: dfsPost_def edgesPost_def)
next
  case (Cons e es)
  have e: "e \<in> set (edges g0)" and far: "\<forall>x \<in> A. (target e, x) \<notin> (edgeRel g0)\<^sup>*"
    using Cons.prems(3) by auto
  from rk e obtain m where m: "minlen e = Some m" "1 \<le> m"
    by (auto simp: rankable_iff)
  from rk e have tin: "target e \<in> ids g0" by (auto simp: rankable_iff wellFormed_def)
  from ok Cons.prems(1,4) tin far
  obtain r g1 vis1 where d: "dfs n (target e) (g, visited) = Some (Some r, g1, vis1)"
    and post1: "dfsPost g0 A g visited g1 vis1" and t1: "target e \<in> vis1 - A"
    and r: "rankOf g1 (target e) = Some r"
    unfolding dfsOK_def by blast
  from post1 have pre1: "dfsPre g0 A g1 vis1" and sub1: "visited \<subseteq> vis1"
    and keep1: "\<forall>u \<in> visited. rankOf g1 u = rankOf g u"
    by (auto simp: dfsPost_def)
  from pre1 have "finished g0 g1 (vis1 - A)" by (simp add: dfsPre_def)
  from finished_rank [OF this t1 r] have r0: "r \<le> 0" .
  define a1 where "a1 = candidate a (Some r) (minlen e)"
  have a1: "accOK a1" "\<exists>k. a1 = Some k \<and> k \<le> r - m" "\<forall>k. a = Some k \<longrightarrow> (\<exists>k'. a1 = Some k' \<and> k' \<le> k)"
    using Cons.prems(2) m r0
    by (auto simp: a1_def candidate_def minus_opt_def accOK_def split: option.splits)
  have card1: "card (ids g0 - vis1) < n"
    using card_unvisited_mono [OF sub1, of g0] Cons.prems(4) by simp
  have rest: "\<forall>e \<in> set es. e \<in> set (edges g0) \<and> (\<forall>x \<in> A. (target e, x) \<notin> (edgeRel g0)\<^sup>*)"
    using Cons.prems(3) by auto
  from Cons.IH [OF pre1 a1(1) rest card1]
  obtain a' g' visited' where run: "dfsEdges n es a1 (g1, vis1) = Some (a', g', visited')"
    and ep: "edgesPost g0 A es a1 g1 vis1 a' g' visited'"
    by blast
  from ep have post: "dfsPost g0 A g1 vis1 g' visited'" and acc: "accOK a'"
    and le: "\<forall>k. a1 = Some k \<longrightarrow> (\<exists>k'. a' = Some k' \<and> k' \<le> k)"
    and tg: "\<forall>e \<in> set es. target e \<in> visited' - A \<and>
           (\<exists>rw m k. rankOf g' (target e) = Some rw \<and> minlen e = Some m \<and> a' = Some k \<and> k \<le> rw - m)"
    unfolding edgesPost_def by blast+
  from post have pre': "dfsPre g0 A g' visited'" and sub': "vis1 \<subseteq> visited'"
    and keep': "\<forall>u \<in> vis1. rankOf g' u = rankOf g1 u"
    by (auto simp: dfsPost_def)
  have res: "dfsEdges n (e # es) a (g, visited) = Some (a', g', visited')"
    using d run by (simp add: a1_def)
  have p: "dfsPost g0 A g visited g' visited'"
    using pre' sub1 sub' keep1 keep' by (auto simp: dfsPost_def)
  have le': "\<forall>k. a = Some k \<longrightarrow> (\<exists>k'. a' = Some k' \<and> k' \<le> k)"
    using a1(3) le by force
  have te: "target e \<in> visited' - A \<and>
           (\<exists>rw m k. rankOf g' (target e) = Some rw \<and> minlen e = Some m \<and> a' = Some k \<and> k \<le> rw - m)"
  proof -
    from a1(2) obtain k1 where k1: "a1 = Some k1" "k1 \<le> r - m" by blast
    with le obtain k' where k': "a' = Some k'" "k' \<le> k1" by blast
    have "rankOf g' (target e) = Some r" using keep' t1 r by auto
    then show ?thesis using t1 sub' m k' k1 by auto
  qed
  have "edgesPost g0 A (e # es) a g visited a' g' visited'"
    unfolding edgesPost_def using p acc le' te tg by simp
  with res show ?case by blast
qed


lemma card_unvisited_insert:
  assumes "v \<in> ids g" and "v \<notin> visited" and "card (ids g - visited) < Suc n"
  shows "card (ids g - insert v visited) < n"
proof -
  have "ids g - insert v visited \<subset> ids g - visited" using assms(1,2) by auto
  then have "card (ids g - insert v visited) < card (ids g - visited)"
    by (intro psubset_card_mono) (auto simp: finite_ids)
  with assms(3) show ?thesis by simp
qed

lemma rankOf_getNode: "getNode g v = Some label \<Longrightarrow> rankOf g v = rank label"
  by (simp add: rankOf_def)

lemma out_edges: "set (getRelatedEdges g v Out) = {e \<in> set (edges g). source e = v}"
  by auto

lemma edgeRel_step: "e \<in> set (edges g) \<Longrightarrow> (source e, target e) \<in> edgeRel g"
  by (auto simp: edgeRel_def)

lemma dfs_ok_step:
  assumes ok: "dfsOK g0 n" and rk: "rankable g0"
  shows "dfsOK g0 (Suc n)"
  unfolding dfsOK_def
proof (intro allI impI)
  fix v g visited A
  assume asm: "dfsPre g0 A g visited \<and> v \<in> ids g0 \<and> (\<forall>a \<in> A. (v, a) \<notin> (edgeRel g0)\<^sup>*) \<and>
        card (ids g0 - visited) < Suc n"
  then have pre: "dfsPre g0 A g visited" and vin: "v \<in> ids g0"
    and far: "\<forall>a \<in> A. (v, a) \<notin> (edgeRel g0)\<^sup>*" and cd: "card (ids g0 - visited) < Suc n"
    by auto
  from pre have sm: "same g0 g" and AV: "A \<subseteq> visited" and VI: "visited \<subseteq> ids g0"
    and fin: "finished g0 g (visited - A)"
    by (auto simp: dfsPre_def)
  have vA: "v \<notin> A" using far by auto
  from vin sm obtain label where lab: "getNode g v = Some label"
    using getNode_None [of g v] same_ids [OF sm] by (cases "getNode g v") auto
  show "\<exists>r g' visited'. dfs (Suc n) v (g, visited) = Some (Some r, g', visited') \<and>
           dfsPost g0 A g visited g' visited' \<and> v \<in> visited' - A \<and> rankOf g' v = Some r"
  proof (cases "v \<in> visited")
    case True
    with vA fin obtain r where r: "rankOf g v = Some r"
      unfolding finished_def by blast
    have "dfs (Suc n) v (g, visited) = Some (Some r, g, visited)"
      using lab True r rankOf_getNode [OF lab] by simp
    moreover have "dfsPost g0 A g visited g visited"
      using pre by (simp add: dfsPost_def)
    ultimately show ?thesis using True vA r by blast
  next
    case False
    define es where "es = getRelatedEdges g v Out"
    have es: "\<forall>e \<in> set es. e \<in> set (edges g0) \<and> source e = v"
      using sm by (auto simp: es_def same_def)
    have acy: "acyclic (edgeRel g0)" using rk by (simp add: rankable_iff)
    have far': "\<forall>e \<in> set es. e \<in> set (edges g0) \<and> (\<forall>x \<in> insert v A. (target e, x) \<notin> (edgeRel g0)\<^sup>*)"
    proof (intro ballI conjI)
      fix e x assume e: "e \<in> set es" and x: "x \<in> insert v A"
      from e es have eg: "e \<in> set (edges g0)" and sv: "source e = v" by auto
      then have st: "(v, target e) \<in> edgeRel g0" using edgeRel_step [OF eg] by simp
      show "(target e, x) \<notin> (edgeRel g0)\<^sup>*"
      proof
        assume reach: "(target e, x) \<in> (edgeRel g0)\<^sup>*"
        show False
        proof (cases "x = v")
          case True
          with st reach have "(v, v) \<in> (edgeRel g0)\<^sup>+" by (simp add: rtrancl_into_trancl2)
          with acy show False by (auto simp: acyclic_def)
        next
          case False
          with x have "x \<in> A" by simp
          moreover from st reach have "(v, x) \<in> (edgeRel g0)\<^sup>*" by (rule converse_rtrancl_into_rtrancl)
          ultimately show False using far by blast
        qed
      qed
    next
      fix e assume "e \<in> set es" then show "e \<in> set (edges g0)" using es by auto
    qed
    have vminus: "insert v visited - insert v A = visited - A"
      using False by auto
    have pre1: "dfsPre g0 (insert v A) g (insert v visited)"
      using sm AV VI fin vin by (auto simp: dfsPre_def vminus)
    have cd1: "card (ids g0 - insert v visited) < n"
      using card_unvisited_insert [OF vin False cd] .
    have a0: "accOK None" by (simp add: accOK_def)
    from dfsEdges_ok [OF ok rk pre1 a0 far' cd1]
    obtain a' g' visited' where run: "dfsEdges n es None (g, insert v visited) = Some (a', g', visited')"
      and ep: "edgesPost g0 (insert v A) es None g (insert v visited) a' g' visited'"
      by blast
    from ep have post: "dfsPost g0 (insert v A) g (insert v visited) g' visited'" and acc: "accOK a'"
      and tg: "\<forall>e \<in> set es. target e \<in> visited' - insert v A \<and>
           (\<exists>rw m k. rankOf g' (target e) = Some rw \<and> minlen e = Some m \<and> a' = Some k \<and> k \<le> rw - m)"
      unfolding edgesPost_def by blast+
    from post have sm': "same g0 g'" and AV': "insert v A \<subseteq> visited'" and VI': "visited' \<subseteq> ids g0"
      and fin': "finished g0 g' (visited' - insert v A)" and sub': "insert v visited \<subseteq> visited'"
      and keep': "\<forall>u \<in> insert v visited. rankOf g' u = rankOf g u"
      by (auto simp: dfsPost_def dfsPre_def)
    define rk' where "rk' = (case a' of None \<Rightarrow> 0 | Some r \<Rightarrow> r)"
    define g'' where "g'' = setRank g' v (Some rk')"
    have res: "dfs (Suc n) v (g, visited) = Some (Some rk', g'', visited')"
      using lab False run by (simp add: es_def rk'_def g''_def Let_def)
    have rk0: "rk' \<le> 0" using acc by (auto simp: rk'_def accOK_def split: option.splits)
    have vin': "v \<in> ids g'" using vin same_ids [OF sm'] by simp
    have rv: "rankOf g'' v = Some rk'" using vin' by (simp add: g''_def rankOf_setRank)
    have ro: "\<And>u. u \<noteq> v \<Longrightarrow> rankOf g'' u = rankOf g' u" by (simp add: g''_def rankOf_setRank)
    have sm'': "same g0 g''" using sm' by (simp add: g''_def same_setRank)
    have fin'': "finished g0 g'' (visited' - A)"
      unfolding finished_def
    proof (intro ballI)
      fix u assume u: "u \<in> visited' - A"
      show "\<exists>r. rankOf g'' u = Some r \<and> r \<le> 0 \<and>
              (\<forall>e\<in>set (edges g0). source e = u \<longrightarrow> target e \<in> visited' - A \<and>
                 (\<exists>rw m. rankOf g'' (target e) = Some rw \<and> minlen e = Some m \<and> r \<le> rw - m))"
      proof (cases "u = v")
        case True
        have "\<forall>e\<in>set (edges g0). source e = v \<longrightarrow> target e \<in> visited' - A \<and>
                 (\<exists>rw m. rankOf g'' (target e) = Some rw \<and> minlen e = Some m \<and> rk' \<le> rw - m)"
        proof (intro ballI impI)
          fix e assume e: "e \<in> set (edges g0)" and sv: "source e = v"
          then have "e \<in> set es" using sm by (auto simp: es_def same_def)
          with tg obtain rw m k where t: "target e \<in> visited' - insert v A"
            and w: "rankOf g' (target e) = Some rw" "minlen e = Some m" "a' = Some k" "k \<le> rw - m"
            by blast
          from t have "target e \<noteq> v" by auto
          then have "rankOf g'' (target e) = Some rw" using w ro by simp
          moreover have "rk' = k" using w by (simp add: rk'_def)
          ultimately show "target e \<in> visited' - A \<and>
                 (\<exists>rw m. rankOf g'' (target e) = Some rw \<and> minlen e = Some m \<and> rk' \<le> rw - m)"
            using t w by auto
        qed
        with True rv rk0 show ?thesis by blast
      next
        case False
        with u have u': "u \<in> visited' - insert v A" by auto
        with fin' obtain r where r: "rankOf g' u = Some r" "r \<le> 0"
          and oe: "\<forall>e\<in>set (edges g0). source e = u \<longrightarrow> target e \<in> visited' - insert v A \<and>
                 (\<exists>rw m. rankOf g' (target e) = Some rw \<and> minlen e = Some m \<and> r \<le> rw - m)"
          unfolding finished_def by blast
        have "\<forall>e\<in>set (edges g0). source e = u \<longrightarrow> target e \<in> visited' - A \<and>
                 (\<exists>rw m. rankOf g'' (target e) = Some rw \<and> minlen e = Some m \<and> r \<le> rw - m)"
        proof (intro ballI impI)
          fix e assume e: "e \<in> set (edges g0)" and su: "source e = u"
          with oe obtain rw m where t: "target e \<in> visited' - insert v A"
            and w: "rankOf g' (target e) = Some rw" "minlen e = Some m" "r \<le> rw - m"
            by blast
          from t have "target e \<noteq> v" by auto
          then have "rankOf g'' (target e) = Some rw" using w ro by simp
          then show "target e \<in> visited' - A \<and>
                 (\<exists>rw m. rankOf g'' (target e) = Some rw \<and> minlen e = Some m \<and> r \<le> rw - m)"
            using t w by auto
        qed
        moreover have "rankOf g'' u = Some r" using r False ro by simp
        ultimately show ?thesis using r by blast
      qed
    qed
    have pre'': "dfsPre g0 A g'' visited'"
      using sm'' AV' VI' fin'' by (auto simp: dfsPre_def)
    have keep'': "\<forall>u \<in> visited. rankOf g'' u = rankOf g u"
    proof
      fix u assume u: "u \<in> visited"
      with False have "u \<noteq> v" by auto
      then show "rankOf g'' u = rankOf g u" using ro keep' u by simp
    qed
    have "dfsPost g0 A g visited g'' visited'"
      using pre'' sub' keep'' by (auto simp: dfsPost_def)
    moreover have "v \<in> visited' - A" using sub' vA by auto
    ultimately show ?thesis using res rv by blast
  qed
qed

lemma dfs_ok: "rankable g0 \<Longrightarrow> dfsOK g0 n"
proof (induction n)
  case 0
  show ?case by (simp add: dfsOK_def)
next
  case (Suc n)
  then show ?case by (simp add: dfs_ok_step)
qed


definition feasible :: "Graph \<Rightarrow> bool" where
  "feasible g = (\<forall>e \<in> set (edges g). case slack g e of None \<Rightarrow> False | Some k \<Rightarrow> 0 \<le> k)"

lemma feasible_iff:
  "feasible g \<longleftrightarrow> (\<forall>e \<in> set (edges g). \<exists>k. slack g e = Some k \<and> 0 \<le> k)"
  by (auto simp: feasible_def split: option.splits)

lemma dfsAll_ok:
  assumes rk: "rankable g0"
  shows "dfsPre g0 {} g visited \<Longrightarrow> set starts \<subseteq> ids g0 \<Longrightarrow> card (ids g0 - visited) < n \<Longrightarrow>
     \<exists>g' visited'. dfsAll n starts (g, visited) = Some (g', visited') \<and>
        dfsPre g0 {} g' visited' \<and> visited \<union> set starts \<subseteq> visited'"
proof (induction starts arbitrary: g visited)
  case Nil
  then show ?case by simp
next
  case (Cons v starts)
  have "dfsOK g0 n" using rk by (rule dfs_ok)
  with Cons.prems obtain r g1 vis1 where d: "dfs n v (g, visited) = Some (Some r, g1, vis1)"
    and post: "dfsPost g0 {} g visited g1 vis1" and v1: "v \<in> vis1 - {}"
    unfolding dfsOK_def by (metis empty_iff list.set_intros(1) subsetD)
  from post have pre1: "dfsPre g0 {} g1 vis1" and sub1: "visited \<subseteq> vis1"
    by (auto simp: dfsPost_def)
  have card1: "card (ids g0 - vis1) < n"
    using card_unvisited_mono [OF sub1, of g0] Cons.prems(3) by simp
  from Cons.prems(2) have "set starts \<subseteq> ids g0" by simp
  from Cons.IH [OF pre1 this card1]
  obtain g' visited' where run: "dfsAll n starts (g1, vis1) = Some (g', visited')"
    and pre': "dfsPre g0 {} g' visited'" and sub': "vis1 \<union> set starts \<subseteq> visited'"
    by blast
  have "dfsAll n (v # starts) (g, visited) = Some (g', visited')"
    using d run by simp
  moreover have "visited \<union> set (v # starts) \<subseteq> visited'"
    using sub1 sub' v1 by auto
  ultimately show ?case using pre' by blast
qed

lemma sourcesOf_set: "set (sourcesOf g) = {v \<in> ids g. \<forall>e \<in> set (edges g). target e \<noteq> v}"
  by (auto simp: sourcesOf_def ids_def filter_empty_conv)

lemma finite_edgeRel: "finite (edgeRel g)"
  by (simp add: edgeRel_def)

lemma all_visited:
  assumes rk: "rankable g0" and fin: "finished g0 g visited"
    and src: "set (sourcesOf g0) \<subseteq> visited"
  shows "v \<in> ids g0 \<Longrightarrow> v \<in> visited"
proof -
  have "wf (edgeRel g0)"
    using rk finite_edgeRel [of g0] by (simp add: rankable_iff wf_iff_acyclic_if_finite)
  then show "v \<in> ids g0 \<Longrightarrow> v \<in> visited"
  proof (induction v rule: wf_induct_rule)
    case (less u)
    show ?case
    proof (cases "\<exists>e \<in> set (edges g0). target e = u")
      case True
      then obtain e where e: "e \<in> set (edges g0)" "target e = u" by blast
      then have "(source e, u) \<in> edgeRel g0" using edgeRel_step [of e g0] by simp
      moreover have "source e \<in> ids g0" using rk e by (auto simp: rankable_iff wellFormed_def)
      ultimately have "source e \<in> visited" using less.IH by blast
      with fin e show ?thesis unfolding finished_def by blast
    next
      case False
      with less.prems have "u \<in> set (sourcesOf g0)" by (auto simp: sourcesOf_set)
      with src show ?thesis by blast
    qed
  qed
qed

lemma finished_feasible:
  assumes "same g0 g" and "finished g0 g F" and "\<forall>e \<in> set (edges g0). source e \<in> F"
  shows "feasible g"
  unfolding feasible_iff
proof
  fix e assume "e \<in> set (edges g)"
  then have e: "e \<in> set (edges g0)" using assms(1) by (simp add: same_def)
  with assms(3) have "source e \<in> F" by blast
  with assms(2) e obtain r rw m where "rankOf g (source e) = Some r"
    "rankOf g (target e) = Some rw" "minlen e = Some m" "r \<le> rw - m"
    unfolding finished_def by blast
  then show "\<exists>k. slack g e = Some k \<and> 0 \<le> k"
    by (simp add: slack_def minus_opt_def)
qed

text \<open>
  Keys that are not ids of the graph make no difference to \<open>dfs\<close>: it looks up
  \<open>visited\<close> only at nodes of the graph.
\<close>

definition withKeys :: "ID set \<Rightarrow> 'a \<times> Graph \<times> ID set \<Rightarrow> 'a \<times> Graph \<times> ID set" where
  "withKeys X r = (fst r, fst (snd r), snd (snd r) \<union> X)"

definition dfsExtra :: "ID set \<Rightarrow> nat \<Rightarrow> bool" where
  "dfsExtra X n =
     (\<forall>v g visited. X \<inter> ids g = {} \<longrightarrow>
        dfs n v (g, visited \<union> X) = map_option (withKeys X) (dfs n v (g, visited)) \<and>
        (\<forall>r. dfs n v (g, visited) = Some r \<longrightarrow> ids (fst (snd r)) = ids g))"

lemma dfsEdges_extra:
  assumes "dfsExtra X n"
  shows "X \<inter> ids g = {} \<Longrightarrow>
     dfsEdges n es a (g, visited \<union> X) = map_option (withKeys X) (dfsEdges n es a (g, visited)) \<and>
     (\<forall>r. dfsEdges n es a (g, visited) = Some r \<longrightarrow> ids (fst (snd r)) = ids g)"
proof (induction es arbitrary: a g visited)
  case Nil
  then show ?case by (simp add: withKeys_def)
next
  case (Cons e es)
  from assms Cons.prems
  have d: "dfs n (target e) (g, visited \<union> X) = map_option (withKeys X) (dfs n (target e) (g, visited))"
    and i: "\<And>r. dfs n (target e) (g, visited) = Some r \<Longrightarrow> ids (fst (snd r)) = ids g"
    unfolding dfsExtra_def by blast+
  show ?case
  proof (cases "dfs n (target e) (g, visited)")
    case None
    with d show ?thesis by simp
  next
    case (Some r)
    obtain w g1 vis1 where r: "r = (w, g1, vis1)" by (cases r)
    from i [OF Some] have i1: "ids g1 = ids g" by (simp add: r)
    with Cons.prems have "X \<inter> ids g1 = {}" by simp
    from Cons.IH [OF this, of "candidate a w (minlen e)" vis1] i1 Some d
    show ?thesis by (simp add: r withKeys_def)
  qed
qed

lemma ids_setRank_same: "ids (setRank g v r) = ids g"
  by (simp add: ids_def nids_setRank)

lemma dfs_extra_step:
  assumes "dfsExtra X n"
  shows "dfsExtra X (Suc n)"
  unfolding dfsExtra_def
proof (intro allI impI)
  fix v g visited
  assume x: "X \<inter> ids g = {}"
  show "dfs (Suc n) v (g, visited \<union> X) = map_option (withKeys X) (dfs (Suc n) v (g, visited)) \<and>
        (\<forall>r. dfs (Suc n) v (g, visited) = Some r \<longrightarrow> ids (fst (snd r)) = ids g)"
  proof (cases "getNode g v")
    case None
    then show ?thesis by (simp add: withKeys_def)
  next
    case (Some label)
    then have vin: "v \<in> ids g" using getNode_None [of g v] by auto
    with x have vx: "v \<notin> X" by auto
    show ?thesis
    proof (cases "v \<in> visited")
      case True
      with Some show ?thesis by (simp add: withKeys_def)
    next
      case False
      from dfsEdges_extra [OF assms x, of "getRelatedEdges g v Out" None "insert v visited"]
      have e: "dfsEdges n (getRelatedEdges g v Out) None (g, insert v (visited \<union> X))
             = map_option (withKeys X) (dfsEdges n (getRelatedEdges g v Out) None (g, insert v visited))"
        and i: "\<And>r. dfsEdges n (getRelatedEdges g v Out) None (g, insert v visited) = Some r
             \<Longrightarrow> ids (fst (snd r)) = ids g"
        by simp_all
      show ?thesis
      proof (cases "dfsEdges n (getRelatedEdges g v Out) None (g, insert v visited)")
        case None
        with Some False vx e show ?thesis by simp
      next
        case inner: (Some r)
        obtain a' g' vis' where r: "r = (a', g', vis')" by (cases r)
        from i [OF inner] have "ids g' = ids g" by (simp add: r)
        with Some False vx e inner show ?thesis
          by (simp add: r withKeys_def Let_def ids_setRank_same)
      qed
    qed
  qed
qed

lemma dfs_extra: "dfsExtra X n"
proof (induction n)
  case 0
  show ?case by (simp add: dfsExtra_def)
next
  case (Suc n)
  then show ?case by (rule dfs_extra_step)
qed

lemma dfsAll_extra:
  "X \<inter> ids g = {} \<Longrightarrow>
   map_option fst (dfsAll n starts (g, visited \<union> X)) = map_option fst (dfsAll n starts (g, visited))"
proof (induction starts arbitrary: g visited)
  case Nil
  then show ?case by simp
next
  case (Cons v starts)
  from dfs_extra [of X n] Cons.prems
  have d: "dfs n v (g, visited \<union> X) = map_option (withKeys X) (dfs n v (g, visited))"
    and i: "\<And>r. dfs n v (g, visited) = Some r \<Longrightarrow> ids (fst (snd r)) = ids g"
    unfolding dfsExtra_def by blast+
  show ?case
  proof (cases "dfs n v (g, visited)")
    case None
    with d show ?thesis by simp
  next
    case (Some r)
    obtain w g1 vis1 where r: "r = (w, g1, vis1)" by (cases r)
    from i [OF Some] have "ids g1 = ids g" by (simp add: r)
    with Cons.prems have "X \<inter> ids g1 = {}" by simp
    from Cons.IH [OF this, of vis1] Some d show ?thesis by (simp add: r withKeys_def)
  qed
qed

text \<open>
  \<open>longestPath\<close> on a rankable graph none of whose ids is an inherited key: it returns,
  and the ranks it leaves are feasible.
\<close>

lemma longestPath_feasible:
  assumes rk: "rankable g" and fuel: "length (nodes g) < fuel"
    and own: "set inheritedKeys \<inter> ids g = {}"
  shows "\<exists>g'. longestPath fuel g = Some g' \<and> same g g' \<and> feasible g'
            \<and> (\<forall>v \<in> ids g. \<exists>r. rankOf g' v = Some r \<and> r \<le> 0)"
proof -
  have pre: "dfsPre g {} g {}" by (simp add: dfsPre_def same_refl finished_def)
  have "card (ids g) \<le> length (nodes g)"
    unfolding ids_def using card_length [of "map nid (nodes g)"] by simp
  with fuel have cd: "card (ids g - {}) < fuel" by simp
  have "set (sourcesOf g) \<subseteq> ids g" by (auto simp: sourcesOf_set)
  from dfsAll_ok [OF rk pre this cd]
  obtain g' visited' where run: "dfsAll fuel (sourcesOf g) (g, {}) = Some (g', visited')"
    and pre': "dfsPre g {} g' visited'" and sub: "{} \<union> set (sourcesOf g) \<subseteq> visited'"
    by blast
  from pre' have sm: "same g g'" and fin: "finished g g' visited'"
    by (auto simp: dfsPre_def)
  have all: "\<And>v. v \<in> ids g \<Longrightarrow> v \<in> visited'"
    using all_visited [OF rk fin] sub by simp
  have "\<forall>e \<in> set (edges g). source e \<in> visited'"
    using rk all by (auto simp: rankable_iff wellFormed_def)
  from finished_feasible [OF sm fin this] have "feasible g'" .
  moreover have "longestPath fuel g = Some g'"
    using run dfsAll_extra [OF own, of fuel "sourcesOf g" "{}"] by (simp add: longestPath_def)
  moreover have "\<forall>v \<in> ids g. \<exists>r. rankOf g' v = Some r \<and> r \<le> 0"
    using all fin unfolding finished_def by blast
  ultimately show ?thesis using sm by blast
qed


lemma same_trans: "same g0 g1 \<Longrightarrow> same g1 g2 \<Longrightarrow> same g0 g2"
  by (simp add: same_def)







lemma card_ids_le: "card (ids g) \<le> length (nodes g)"
  unfolding ids_def using card_length [of "map nid (nodes g)"] by simp

section \<open>Facts about \<open>feasibleTree\<close>\<close>

text \<open>
  The tree as \<open>tightTree\<close> keeps it: its node ids are distinct and are ids of \<open>g\<close>,
  and each of its edges joins two of its nodes and carries the id of an edge of \<open>g\<close>
  between the same two nodes whose slack is zero. \<open>reached\<close> says that the other end
  of every slack-free edge at a node is in the tree.
\<close>

definition other :: "ID \<Rightarrow> Edge \<Rightarrow> ID" where
  "other v e = (if v = source e then target e else source e)"

definition treeInv :: "Graph \<Rightarrow> Graph \<Rightarrow> bool" where
  "treeInv g t =
     (distinct (map nid (nodes t)) \<and> ids t \<subseteq> ids g \<and>
      (\<forall>te \<in> set (edges t). source te \<in> ids t \<and> target te \<in> ids t \<and>
         (\<exists>e \<in> set (edges g). eid e = eid te \<and> slack g e = Some 0 \<and>
            ((source e = source te \<and> target e = target te) \<or>
             (source e = target te \<and> target e = source te)))))"

definition reached :: "Graph \<Rightarrow> ID \<Rightarrow> Edge list \<Rightarrow> Graph \<Rightarrow> bool" where
  "reached g v es t = (\<forall>e \<in> set es. noSlack g e \<longrightarrow> other v e \<in> ids t)"

definition tightOK :: "Graph \<Rightarrow> nat \<Rightarrow> bool" where
  "tightOK g n =
     (\<forall>v t. treeInv g t \<and> v \<in> ids t \<and> card (ids g - ids t) < n \<longrightarrow>
        (\<exists>t'. tightDfs n g v t = Some t' \<and> treeInv g t' \<and> ids t \<subseteq> ids t' \<and>
           reached g v (getRelatedEdges g v Both) t'))"

lemma hasNode_ids: "hasNode t w \<longleftrightarrow> w \<in> ids t"
  by (simp add: hasNode_def ids_def)

lemma ids_addNode: "ids (addEdge (addNode t (bareNode w)) te) = insert w (ids t)"
  by (auto simp: ids_def addEdge_def addNode_def bareNode_def)

lemma both_edges: "set (getRelatedEdges g v Both) = {e \<in> set (edges g). target e = v \<or> source e = v}"
  by auto

lemma noSlack_feasible: "feasible g \<Longrightarrow> e \<in> set (edges g) \<Longrightarrow> noSlack g e \<longleftrightarrow> slack g e = Some 0"
  by (auto simp: feasible_iff noSlack_def split: option.splits)

lemma treeInv_add:
  assumes ti: "treeInv g t" and v: "v \<in> ids t" and w: "w \<notin> ids t" "w \<in> ids g"
    and e: "e \<in> set (edges g)" "slack g e = Some 0"
    and vw: "(source e = v \<and> target e = w) \<or> (source e = w \<and> target e = v)"
  shows "treeInv g (addEdge (addNode t (bareNode w)) (treeEdge (eid e) v w))"
proof -
  let ?t = "addEdge (addNode t (bareNode w)) (treeEdge (eid e) v w)"
  have n: "map nid (nodes ?t) = map nid (nodes t) @ [w]"
    by (simp add: addEdge_def addNode_def bareNode_def)
  have i: "ids ?t = insert w (ids t)" by (rule ids_addNode)
  have ed: "set (edges ?t) = insert (treeEdge (eid e) v w) (set (edges t))"
    by (simp add: addEdge_def addNode_def)
  have d: "distinct (map nid (nodes ?t))"
    using ti w(1) unfolding n by (simp add: treeInv_def ids_def)
  have s: "ids ?t \<subseteq> ids g" using ti w(2) unfolding i by (auto simp: treeInv_def)
  have "\<forall>te \<in> set (edges ?t). source te \<in> ids ?t \<and> target te \<in> ids ?t \<and>
         (\<exists>e \<in> set (edges g). eid e = eid te \<and> slack g e = Some 0 \<and>
            ((source e = source te \<and> target e = target te) \<or>
             (source e = target te \<and> target e = source te)))"
  proof
    fix te assume "te \<in> set (edges ?t)"
    then consider "te = treeEdge (eid e) v w" | "te \<in> set (edges t)" unfolding ed by auto
    then show "source te \<in> ids ?t \<and> target te \<in> ids ?t \<and>
         (\<exists>e \<in> set (edges g). eid e = eid te \<and> slack g e = Some 0 \<and>
            ((source e = source te \<and> target e = target te) \<or>
             (source e = target te \<and> target e = source te)))"
    proof cases
      case 1
      then show ?thesis using v e vw unfolding i by (auto simp: treeEdge_def)
    next
      case 2
      then show ?thesis using ti unfolding i treeInv_def by blast
    qed
  qed
  with d s show ?thesis unfolding treeInv_def by blast
qed

lemma card_out_mono: "ids t \<subseteq> ids t' \<Longrightarrow> card (ids g - ids t') \<le> card (ids g - ids t)"
  by (rule card_mono) (auto simp: finite_ids)

lemma card_out_insert:
  assumes "w \<in> ids g" and "w \<notin> T" and "card (ids g - T) \<le> n"
  shows "card (ids g - insert w T) < n"
proof -
  have "ids g - insert w T \<subset> ids g - T" using assms(1,2) by auto
  then have "card (ids g - insert w T) < card (ids g - T)"
    by (intro psubset_card_mono) (auto simp: finite_ids)
  with assms(3) show ?thesis by simp
qed

lemma reached_mono: "reached g v es t \<Longrightarrow> ids t \<subseteq> ids t' \<Longrightarrow> reached g v es t'"
  unfolding reached_def by blast

lemma tightEdges_skip:
  "hasNode t (other v e) \<or> \<not> noSlack g e \<Longrightarrow>
   tightEdges n g v (e # es) t = tightEdges n g v es t"
  by (auto simp: other_def Let_def)

lemma tightEdges_add:
  "\<not> hasNode t (other v e) \<Longrightarrow> noSlack g e \<Longrightarrow>
   tightEdges n g v (e # es) t =
     (case tightDfs n g (other v e)
             (addEdge (addNode t (bareNode (other v e))) (treeEdge (eid e) v (other v e))) of
        None \<Rightarrow> None | Some t' \<Rightarrow> tightEdges n g v es t')"
  by (auto simp: other_def Let_def)

lemma tightEdges_ok:
  assumes ok: "tightOK g n" and wf: "wellFormed g" and fe: "feasible g"
  shows "treeInv g t \<Longrightarrow> v \<in> ids t \<Longrightarrow> card (ids g - ids t) \<le> n \<Longrightarrow>
     (\<forall>e \<in> set es. e \<in> set (edges g) \<and> (target e = v \<or> source e = v)) \<Longrightarrow>
     \<exists>t'. tightEdges n g v es t = Some t' \<and> treeInv g t' \<and> ids t \<subseteq> ids t' \<and> reached g v es t'"
proof (induction es arbitrary: t)
  case Nil
  then show ?case by (simp add: reached_def)
next
  case (Cons e es)
  define w where "w = (if v = source e then target e else source e)"
  have e: "e \<in> set (edges g)" "target e = v \<or> source e = v" using Cons.prems(4) by auto
  have wo: "w = other v e" by (simp add: w_def other_def)
  have wg: "w \<in> ids g" using wf e by (auto simp: w_def wellFormed_def)
  have vw: "(source e = v \<and> target e = w) \<or> (source e = w \<and> target e = v)"
    using e by (auto simp: w_def)
  have rest: "\<forall>e \<in> set es. e \<in> set (edges g) \<and> (target e = v \<or> source e = v)"
    using Cons.prems(4) by auto
  show ?case
  proof (cases "\<not> hasNode t w \<and> noSlack g e")
    case True
    then have wt: "w \<notin> ids t" and ns: "slack g e = Some 0"
      using noSlack_feasible [OF fe e(1)] by (auto simp: hasNode_ids)
    define t1 where "t1 = addEdge (addNode t (bareNode w)) (treeEdge (eid e) v w)"
    have ti1: "treeInv g t1"
      unfolding t1_def using treeInv_add [OF Cons.prems(1,2) wt wg e(1) ns vw] .
    have i1: "ids t1 = insert w (ids t)" unfolding t1_def by (rule ids_addNode)
    have c1: "card (ids g - ids t1) < n"
      unfolding i1 using card_out_insert [OF wg wt Cons.prems(3)] .
    from ok ti1 c1 i1 obtain t2 where d: "tightDfs n g w t1 = Some t2"
      and ti2: "treeInv g t2" and s2: "ids t1 \<subseteq> ids t2"
      unfolding tightOK_def by blast
    have v2: "v \<in> ids t2" using Cons.prems(2) i1 s2 by auto
    have c2: "card (ids g - ids t2) \<le> n"
      using card_out_mono [OF s2, of g] c1 by simp
    from Cons.IH [OF ti2 v2 c2 rest]
    obtain t' where run: "tightEdges n g v es t2 = Some t'" and ti': "treeInv g t'"
      and s': "ids t2 \<subseteq> ids t'" and r': "reached g v es t'"
      by blast
    have "tightEdges n g v (e # es) t = Some t'"
      using True d run tightEdges_add [of t v e g n es] unfolding wo t1_def by simp
    moreover have "ids t \<subseteq> ids t'" using i1 s2 s' by auto
    moreover have "reached g v (e # es) t'"
      using r' i1 s2 s' wo by (auto simp: reached_def)
    ultimately show ?thesis using ti' by blast
  next
    case False
    from Cons.IH [OF Cons.prems(1,2,3) rest]
    obtain t' where run: "tightEdges n g v es t = Some t'" and ti': "treeInv g t'"
      and s': "ids t \<subseteq> ids t'" and r': "reached g v es t'"
      by blast
    have "tightEdges n g v (e # es) t = Some t'"
      using False run tightEdges_skip [of t v e g n es] unfolding wo by auto
    moreover have "reached g v (e # es) t'"
      using r' False s' wo by (auto simp: reached_def hasNode_ids)
    ultimately show ?thesis using ti' s' by blast
  qed
qed

lemma tight_ok:
  assumes wf: "wellFormed g" and fe: "feasible g"
  shows "tightOK g n"
proof (induction n)
  case 0
  show ?case by (simp add: tightOK_def)
next
  case (Suc n)
  show ?case
    unfolding tightOK_def
  proof (intro allI impI)
    fix v t
    assume a: "treeInv g t \<and> v \<in> ids t \<and> card (ids g - ids t) < Suc n"
    then have c: "card (ids g - ids t) \<le> n" by simp
    have es: "\<forall>e \<in> set (getRelatedEdges g v Both). e \<in> set (edges g) \<and> (target e = v \<or> source e = v)"
      unfolding both_edges by blast
    from tightEdges_ok [OF Suc wf fe _ _ c es] a
    show "\<exists>t'. tightDfs (Suc n) g v t = Some t' \<and> treeInv g t' \<and> ids t \<subseteq> ids t' \<and>
           reached g v (getRelatedEdges g v Both) t'"
      by simp
  qed
qed

lemma tightAll_ok:
  assumes wf: "wellFormed g" and fe: "feasible g"
  shows "treeInv g t \<Longrightarrow> set starts \<subseteq> ids t \<Longrightarrow> card (ids g - ids t) < n \<Longrightarrow>
     \<exists>t'. tightAll n g starts t = Some t' \<and> treeInv g t' \<and> ids t \<subseteq> ids t' \<and>
        (\<forall>v \<in> set starts. reached g v (getRelatedEdges g v Both) t')"
proof (induction starts arbitrary: t)
  case Nil
  then show ?case by simp
next
  case (Cons v starts)
  from tight_ok [OF wf fe, of n] Cons.prems
  obtain t1 where d: "tightDfs n g v t = Some t1" and ti1: "treeInv g t1"
    and s1: "ids t \<subseteq> ids t1" and r1: "reached g v (getRelatedEdges g v Both) t1"
    unfolding tightOK_def by (metis list.set_intros(1) subsetD)
  have st: "set starts \<subseteq> ids t1" using Cons.prems(2) s1 by auto
  have c1: "card (ids g - ids t1) < n"
    using card_out_mono [OF s1, of g] Cons.prems(3) by simp
  from Cons.IH [OF ti1 st c1]
  obtain t' where run: "tightAll n g starts t1 = Some t'" and ti': "treeInv g t'"
    and s': "ids t1 \<subseteq> ids t'"
    and r': "\<forall>v \<in> set starts. reached g v (getRelatedEdges g v Both) t'"
    by blast
  have "tightAll n g (v # starts) t = Some t'" using d run by simp
  moreover have "reached g v (getRelatedEdges g v Both) t'"
    using reached_mono [OF r1 s'] .
  ultimately show ?case using ti' s1 s' r' by auto
qed

lemma tightTree_ok:
  assumes wf: "wellFormed g" and fe: "feasible g" and ti: "treeInv g t"
    and c: "card (ids g - ids t) < depth"
  shows "\<exists>t'. tightTree depth t g = Some t' \<and> treeInv g t' \<and> ids t \<subseteq> ids t' \<and>
        (\<forall>v \<in> ids t. reached g v (getRelatedEdges g v Both) t')"
  using tightAll_ok [OF wf fe ti _ c, of "map nid (nodes t)"]
  by (simp add: tightTree_def ids_def)

lemma jgt_trans: "jgt a b \<Longrightarrow> jgt b c \<Longrightarrow> jgt a c"
  by (cases a; cases b; cases c) auto

lemma jgt_irrefl: "\<not> jgt a a"
  by (cases a) auto

lemma fold_min:
  "(\<forall>x \<in> S. \<not> jgt (f a) (f x)) \<Longrightarrow> a \<in> S \<Longrightarrow>
   fold (\<lambda>b a. if jgt (f a) (f b) then b else a) xs a \<in> S \<union> set xs \<and>
   (\<forall>x \<in> S \<union> set xs. \<not> jgt (f (fold (\<lambda>b a. if jgt (f a) (f b) then b else a) xs a)) (f x))"
proof (induction xs arbitrary: a S)
  case Nil
  then show ?case by simp
next
  case (Cons b xs)
  define a' where "a' = (if jgt (f a) (f b) then b else a)"
  have 1: "\<forall>x \<in> insert b S. \<not> jgt (f a') (f x)"
  proof
    fix x assume x: "x \<in> insert b S"
    show "\<not> jgt (f a') (f x)"
    proof (cases "jgt (f a) (f b)")
      case True
      then have a': "a' = b" by (simp add: a'_def)
      show ?thesis
      proof
        assume g: "jgt (f a') (f x)"
        show False
        proof (cases "x = b")
          case True
          with g a' show False using jgt_irrefl by simp
        next
          case False
          with x have "x \<in> S" by simp
          moreover from True g a' have "jgt (f a) (f x)" using jgt_trans by blast
          ultimately show False using Cons.prems(1) by blast
        qed
      qed
    next
      case False
      then show ?thesis using x Cons.prems(1) by (auto simp: a'_def)
    qed
  qed
  have 2: "a' \<in> insert b S" using Cons.prems(2) by (simp add: a'_def)
  from Cons.IH [OF 1 2] show ?case by (simp add: a'_def)
qed

lemma minBy_min:
  "minBy xs f = Some m \<Longrightarrow> m \<in> set xs \<and> (\<forall>x \<in> set xs. \<not> jgt (f m) (f x))"
proof (cases xs)
  case Nil
  then show "minBy xs f = Some m \<Longrightarrow> ?thesis" by simp
next
  case (Cons a rest)
  assume "minBy xs f = Some m"
  then have m: "m = fold (\<lambda>b a. if jgt (f a) (f b) then b else a) rest a"
    using Cons by simp
  have "\<not> jgt (f a) (f a)" by (rule jgt_irrefl)
  then have "\<forall>x \<in> {a}. \<not> jgt (f a) (f x)" by simp
  from fold_min [OF this, of rest] show ?thesis unfolding m Cons by simp
qed

lemma minBy_Some: "xs \<noteq> [] \<Longrightarrow> \<exists>m. minBy xs f = Some m"
  by (cases xs) auto


definition adj :: "Graph \<Rightarrow> (ID \<times> ID) set" where
  "adj g = edgeRel g \<union> (edgeRel g)\<inverse>"

definition connected :: "Graph \<Rightarrow> bool" where
  "connected g = (\<forall>u \<in> ids g. \<forall>v \<in> ids g. u = v \<or> (u, v) \<in> (adj g)\<^sup>+)"

lemma connected_iff: "connected g \<longleftrightarrow> (\<forall>u \<in> ids g. \<forall>v \<in> ids g. (u, v) \<in> (adj g)\<^sup>*)"
  by (auto simp: connected_def rtrancl_eq_or_trancl)

definition boundary :: "Graph \<Rightarrow> Edge \<Rightarrow> bool" where
  "boundary t e = (hasNode t (source e) \<noteq> hasNode t (target e))"

lemma boundary_exists:
  assumes con: "connected g" and a: "a \<in> ids t" and sub: "ids t \<subseteq> ids g" and b: "b \<in> ids g" "b \<notin> ids t"
  shows "\<exists>e \<in> set (edges g). boundary t e"
proof -
  have "(a, b) \<in> (adj g)\<^sup>*" using con a sub b by (auto simp: connected_iff)
  then have "b \<in> ids t \<or> (\<exists>e \<in> set (edges g). boundary t e)"
  proof (induction rule: rtrancl_induct)
    case base
    then show ?case using a by simp
  next
    case (step y z)
    show ?case
    proof (cases "\<exists>e \<in> set (edges g). boundary t e")
      case True
      then show ?thesis by simp
    next
      case False
      with step.IH have y: "y \<in> ids t" by simp
      from step.hyps(2) obtain e where e: "e \<in> set (edges g)"
        and yz: "(source e = y \<and> target e = z) \<or> (source e = z \<and> target e = y)"
        by (auto simp: adj_def edgeRel_def)
      with False have "hasNode t (source e) = hasNode t (target e)" by (auto simp: boundary_def)
      with y yz show ?thesis by (auto simp: hasNode_ids)
    qed
  qed
  with b show ?thesis by simp
qed

lemma same_fold_setRank:
  "same g0 g \<Longrightarrow> same g0 (fold (\<lambda>tn g'. setRank g' (nid tn) (h g' tn)) ns g)"
  by (induction ns arbitrary: g) (simp_all add: same_setRank)

lemma same_shiftRanks: "same g (shiftRanks t g delta)"
  unfolding shiftRanks_def by (rule same_fold_setRank) (rule same_refl)

lemma ids_setRank: "ids (setRank g v r) = ids g"
  by (simp add: ids_def nids_setRank)

lemma rankOf_fold_shift:
  "distinct (map nid ns) \<Longrightarrow>
   rankOf (fold (\<lambda>tn g'. setRank g' (nid tn) (shifted (rankOf g' (nid tn)) delta)) ns g) v
     = (if v \<in> nid ` set ns \<and> v \<in> ids g then shifted (rankOf g v) delta else rankOf g v)"
proof (induction ns arbitrary: g)
  case Nil
  then show ?case by simp
next
  case (Cons n ns)
  let ?g1 = "setRank g (nid n) (shifted (rankOf g (nid n)) delta)"
  from Cons.prems have d: "distinct (map nid ns)" and nn: "nid n \<notin> nid ` set ns" by auto
  show ?case
    using Cons.IH [OF d, of ?g1] nn
    by (auto simp: rankOf_setRank ids_setRank)
qed

lemma rankOf_shiftRanks:
  "distinct (map nid (nodes t)) \<Longrightarrow> ids t \<subseteq> ids g \<Longrightarrow>
   rankOf (shiftRanks t g delta) v
     = (if v \<in> ids t then shifted (rankOf g v) delta else rankOf g v)"
  unfolding shiftRanks_def using rankOf_fold_shift [of "nodes t" delta g v]
  by (auto simp: ids_def)

lemma slack_Some:
  "slack g e = Some k \<longleftrightarrow>
   (\<exists>rt rs m. rankOf g (target e) = Some rt \<and> rankOf g (source e) = Some rs \<and>
      minlen e = Some m \<and> k = rt - rs - m)"
  by (auto simp: slack_def minus_opt_def split: option.splits)

text \<open>The slack of an edge after the nodes of the tree have moved by \<open>d\<close>.\<close>

lemma slack_shiftRanks:
  assumes "distinct (map nid (nodes t))" and "ids t \<subseteq> ids g" and "slack g e = Some k"
  shows "slack (shiftRanks t g (Some d)) e
     = Some (k + (if target e \<in> ids t then d else 0) - (if source e \<in> ids t then d else 0))"
  using assms(3)
  by (auto simp: slack_def minus_opt_def rankOf_shiftRanks [OF assms(1,2)] shifted_def
      split: option.splits)


definition tightBoundary :: "Graph \<Rightarrow> Graph \<Rightarrow> bool" where
  "tightBoundary g t = (\<exists>e \<in> set (edges g). boundary t e \<and> noSlack g e)"

lemma feasible_slack: "feasible g \<Longrightarrow> e \<in> set (edges g) \<Longrightarrow> \<exists>k. slack g e = Some k \<and> 0 \<le> k"
  by (simp add: feasible_iff)

lemma shift_step:
  assumes fe: "feasible g" and ti: "treeInv g t" and con: "connected g"
    and a: "a \<in> ids t" and b: "b \<in> ids g" "b \<notin> ids t"
  shows "\<exists>edge d. findMinSlackEdge t g = Some edge \<and> deltaOf t g edge = Some d \<and>
           feasible (shiftRanks t g (Some d)) \<and> treeInv (shiftRanks t g (Some d)) t \<and>
           tightBoundary (shiftRanks t g (Some d)) t"
proof -
  define sc where "sc = (\<lambda>e. if hasNode t (source e) \<noteq> hasNode t (target e)
                              then score (slack g e) else PInf)"
  from ti have dist: "distinct (map nid (nodes t))" and sub: "ids t \<subseteq> ids g"
    by (auto simp: treeInv_def)
  from boundary_exists [OF con a sub b]
  obtain b0 where b0: "b0 \<in> set (edges g)" "boundary t b0" by blast
  from feasible_slack [OF fe b0(1)] obtain k0 where k0: "slack g b0 = Some k0" by blast
  have scb0: "sc b0 = Fin (of_int k0)"
    using b0(2) k0 by (simp add: sc_def boundary_def score_def)
  from b0 have "edges g \<noteq> []" by auto
  from minBy_Some [OF this, of sc] obtain edge where m: "minBy (edges g) sc = Some edge" by blast
  from minBy_min [OF m] have eg: "edge \<in> set (edges g)"
    and mn: "\<forall>x \<in> set (edges g). \<not> jgt (sc edge) (sc x)"
    by auto
  have fm: "findMinSlackEdge t g = Some edge"
    using m by (simp add: findMinSlackEdge_def sc_def)
  have be: "boundary t edge"
  proof (rule ccontr)
    assume "\<not> boundary t edge"
    then have "sc edge = PInf" by (simp add: sc_def boundary_def)
    with mn b0(1) scb0 show False by force
  qed
  from feasible_slack [OF fe eg] obtain k where k: "slack g edge = Some k" "0 \<le> k" by blast
  have sce: "sc edge = Fin (of_int k)" using be k by (simp add: sc_def boundary_def score_def)
  have least: "k \<le> kx" if "x \<in> set (edges g)" "boundary t x" "slack g x = Some kx" for x kx
  proof -
    have "sc x = Fin (of_int kx)" using that by (simp add: sc_def boundary_def score_def)
    with mn that(1) sce have "\<not> jgt (Fin (of_int k)) (Fin (of_int kx))" by force
    then show ?thesis by simp
  qed
  define d where "d = (if hasNode t (source edge) then k else - k)"
  have dl: "deltaOf t g edge = Some d"
    using k by (simp add: deltaOf_def d_def minus_opt_def)
  let ?g1 = "shiftRanks t g (Some d)"
  have sl: "\<And>e ke. slack g e = Some ke \<Longrightarrow>
      slack ?g1 e = Some (ke + (if target e \<in> ids t then d else 0) - (if source e \<in> ids t then d else 0))"
    by (rule slack_shiftRanks [OF dist sub])
  have eg1: "edges ?g1 = edges g" using same_shiftRanks [of g t "Some d"] by (simp add: same_def)
  have ids1: "ids ?g1 = ids g" using same_ids [OF same_shiftRanks [of g t "Some d"]] .
  have f1: "feasible ?g1"
    unfolding feasible_iff eg1
  proof
    fix e assume e: "e \<in> set (edges g)"
    from feasible_slack [OF fe e] obtain ke where ke: "slack g e = Some ke" "0 \<le> ke" by blast
    have "0 \<le> ke + (if target e \<in> ids t then d else 0) - (if source e \<in> ids t then d else 0)"
    proof (cases "boundary t e")
      case True
      from least [OF e True ke(1)] have "k \<le> ke" .
      with ke(2) k(2) show ?thesis by (auto simp: d_def)
    next
      case False
      then show ?thesis using ke(2) by (auto simp: boundary_def hasNode_ids)
    qed
    with sl [OF ke(1)] show "\<exists>k. slack ?g1 e = Some k \<and> 0 \<le> k" by simp
  qed
  have t1: "treeInv ?g1 t"
    unfolding treeInv_def ids1 eg1
  proof (intro conjI ballI)
    show "distinct (map nid (nodes t))" by (rule dist)
    show "ids t \<subseteq> ids g" by (rule sub)
  next
    fix te assume te: "te \<in> set (edges t)"
    with ti show "source te \<in> ids t" "target te \<in> ids t" by (auto simp: treeInv_def)
    from ti te obtain e where e: "e \<in> set (edges g)" "eid e = eid te" "slack g e = Some 0"
      and st: "(source e = source te \<and> target e = target te) \<or>
               (source e = target te \<and> target e = source te)"
      and ends: "source te \<in> ids t" "target te \<in> ids t"
      unfolding treeInv_def by blast
    from st ends have "source e \<in> ids t" "target e \<in> ids t" by auto
    with sl [OF e(3)] have "slack ?g1 e = Some 0" by simp
    with e st show "\<exists>e \<in> set (edges g). eid e = eid te \<and> slack ?g1 e = Some 0 \<and>
            ((source e = source te \<and> target e = target te) \<or>
             (source e = target te \<and> target e = source te))"
      by blast
  qed
  have "slack ?g1 edge = Some 0"
    using sl [OF k(1)] be by (auto simp: boundary_def hasNode_ids d_def)
  then have "noSlack ?g1 edge" by (simp add: noSlack_def)
  moreover have "boundary t edge" by (rule be)
  ultimately have "tightBoundary ?g1 t" using eg unfolding tightBoundary_def eg1 by blast
  with fm dl f1 t1 show ?thesis by blast
qed


lemma wellFormed_same: "same g0 g \<Longrightarrow> wellFormed g = wellFormed g0"
  by (simp add: wellFormed_def same_def ids_def)

lemma connected_same: "same g0 g \<Longrightarrow> connected g = connected g0"
  by (simp add: connected_def adj_def edgeRel_def same_def ids_def)

lemma card_ids_distinct: "distinct (map nid (nodes g)) \<Longrightarrow> card (ids g) = length (nodes g)"
  unfolding ids_def using distinct_card [of "map nid (nodes g)"] by simp

lemma tightBoundary_grows:
  assumes wf: "wellFormed g" and tb: "tightBoundary g t"
    and r: "\<forall>v \<in> ids t. reached g v (getRelatedEdges g v Both) t'" and sub: "ids t \<subseteq> ids t'"
  shows "\<exists>b \<in> ids g. b \<in> ids t' \<and> b \<notin> ids t"
proof -
  from tb obtain e where e: "e \<in> set (edges g)" "boundary t e" "noSlack g e"
    unfolding tightBoundary_def by blast
  from wf e(1) have ends: "source e \<in> ids g" "target e \<in> ids g" by (auto simp: wellFormed_def)
  show ?thesis
  proof (cases "source e \<in> ids t")
    case True
    with e(2) have out: "target e \<notin> ids t" by (auto simp: boundary_def hasNode_ids)
    from r True have "reached g (source e) (getRelatedEdges g (source e) Both) t'" by blast
    moreover have "e \<in> set (getRelatedEdges g (source e) Both)" using e(1) by (simp add: both_edges)
    ultimately have "other (source e) e \<in> ids t'" using e(3) by (auto simp: reached_def)
    then have "target e \<in> ids t'" by (simp add: other_def)
    with out ends show ?thesis by blast
  next
    case False
    with e(2) have tin: "target e \<in> ids t" by (auto simp: boundary_def hasNode_ids)
    from r tin have "reached g (target e) (getRelatedEdges g (target e) Both) t'" by blast
    moreover have "e \<in> set (getRelatedEdges g (target e) Both)" using e(1) by (simp add: both_edges)
    ultimately have "other (target e) e \<in> ids t'" using e(3) by (auto simp: reached_def)
    moreover have "target e \<noteq> source e" using tin False by auto
    ultimately have "source e \<in> ids t'" by (simp add: other_def)
    with False ends show ?thesis by blast
  qed
qed

lemma whileTight_ok:
  assumes wf0: "wellFormed g0" and con0: "connected g0"
  shows "same g0 g \<Longrightarrow> feasible g \<Longrightarrow> treeInv g t \<Longrightarrow> a \<in> ids t \<Longrightarrow>
     length (nodes g0) < depth \<Longrightarrow>
     card (ids g - ids t) < n \<or> (card (ids g - ids t) = n \<and> tightBoundary g t) \<Longrightarrow>
     \<exists>t' g'. whileTight n depth (length (nodes g0)) t g = Some (Inr (t', g')) \<and>
        same g0 g' \<and> feasible g' \<and> treeInv g' t' \<and> length (nodes t') = length (nodes g0)"
proof (induction n arbitrary: t g)
  case 0
  then have "card (ids g - ids t) = 0" and tb: "tightBoundary g t" by auto
  from tb obtain e where e: "e \<in> set (edges g)" "boundary t e" unfolding tightBoundary_def by blast
  have wf: "wellFormed g" using wf0 wellFormed_same [OF "0.prems"(1)] by simp
  from wf e(1) have "source e \<in> ids g" "target e \<in> ids g" by (auto simp: wellFormed_def)
  with e(2) have "ids g - ids t \<noteq> {}" by (auto simp: boundary_def hasNode_ids)
  with \<open>card (ids g - ids t) = 0\<close> show ?case using finite_ids [of g] by simp
next
  case (Suc n)
  have sm: "same g0 g" by (rule Suc.prems(1))
  have wf: "wellFormed g" using wf0 wellFormed_same [OF sm] by simp
  have con: "connected g" using con0 connected_same [OF sm] by simp
  have idg: "ids g = ids g0" by (rule same_ids [OF sm])
  have cg: "card (ids g) = length (nodes g0)"
    using wf0 card_ids_distinct [of g0] idg by (simp add: wellFormed_def)
  have "card (ids g - ids t) \<le> card (ids g)" by (rule card_mono) (auto simp: finite_ids)
  with cg Suc.prems(5) have cd: "card (ids g - ids t) < depth" by simp
  from tightTree_ok [OF wf Suc.prems(2,3) cd]
  obtain t1 where tt: "tightTree depth t g = Some t1" and ti1: "treeInv g t1"
    and s1: "ids t \<subseteq> ids t1"
    and r1: "\<forall>v \<in> ids t. reached g v (getRelatedEdges g v Both) t1"
    by blast
  have c1: "card (ids g - ids t1) \<le> n"
  proof (cases "card (ids g - ids t) < Suc n")
    case True
    with card_out_mono [OF s1, of g] show ?thesis by simp
  next
    case False
    with Suc.prems(6) have ceq: "card (ids g - ids t) = Suc n" and tb: "tightBoundary g t" by auto
    from tightBoundary_grows [OF wf tb r1 s1]
    obtain b where b: "b \<in> ids g" "b \<in> ids t1" "b \<notin> ids t" by blast
    then have "ids g - ids t1 \<subset> ids g - ids t" using s1 by auto
    then have "card (ids g - ids t1) < card (ids g - ids t)"
      by (intro psubset_card_mono) (auto simp: finite_ids)
    with ceq show ?thesis by simp
  qed
  from ti1 have d1: "distinct (map nid (nodes t1))" and sub1: "ids t1 \<subseteq> ids g"
    by (auto simp: treeInv_def)
  have l1: "length (nodes t1) = card (ids t1)" using card_ids_distinct [OF d1] by simp
  have a1: "a \<in> ids t1" using Suc.prems(4) s1 by auto
  show ?case
  proof (cases "length (nodes t1) < length (nodes g0)")
    case False
    have "card (ids t1) \<le> card (ids g)" using sub1 by (intro card_mono) (auto simp: finite_ids)
    with False l1 cg have "length (nodes t1) = length (nodes g0)" by simp
    moreover have "whileTight (Suc n) depth (length (nodes g0)) t g = Some (Inr (t1, g))"
      using tt False by simp
    ultimately show ?thesis using sm Suc.prems(2) ti1 by blast
  next
    case True
    with l1 cg have "ids t1 \<noteq> ids g" by auto
    with sub1 obtain b where b: "b \<in> ids g" "b \<notin> ids t1" by auto
    from shift_step [OF Suc.prems(2) ti1 con a1 b]
    obtain edge d where fm: "findMinSlackEdge t1 g = Some edge" and dl: "deltaOf t1 g edge = Some d"
      and f2: "feasible (shiftRanks t1 g (Some d))" and ti2: "treeInv (shiftRanks t1 g (Some d)) t1"
      and tb2: "tightBoundary (shiftRanks t1 g (Some d)) t1"
      by blast
    let ?g1 = "shiftRanks t1 g (Some d)"
    have sm1: "same g0 ?g1" using same_trans [OF sm same_shiftRanks] .
    have ids1: "ids ?g1 = ids g" using same_ids [OF same_shiftRanks [of g t1 "Some d"]] .
    have c2: "card (ids ?g1 - ids t1) < n \<or> (card (ids ?g1 - ids t1) = n \<and> tightBoundary ?g1 t1)"
      using c1 tb2 unfolding ids1 by auto
    from Suc.IH [OF sm1 f2 ti2 a1 Suc.prems(5) c2]
    obtain t' g' where run: "whileTight n depth (length (nodes g0)) t1 ?g1 = Some (Inr (t', g'))"
      and post: "same g0 g'" "feasible g'" "treeInv g' t'" "length (nodes t') = length (nodes g0)"
      by blast
    have "whileTight (Suc n) depth (length (nodes g0)) t g = Some (Inr (t', g'))"
      using tt True fm dl run by simp
    with post show ?thesis by blast
  qed
qed


lemma treeInv_shift:
  assumes ti: "treeInv g t"
  shows "treeInv (shiftRanks t g (Some d)) t"
proof -
  let ?g1 = "shiftRanks t g (Some d)"
  from ti have dist: "distinct (map nid (nodes t))" and sub: "ids t \<subseteq> ids g"
    by (auto simp: treeInv_def)
  have eg1: "edges ?g1 = edges g" using same_shiftRanks [of g t "Some d"] by (simp add: same_def)
  have ids1: "ids ?g1 = ids g" using same_ids [OF same_shiftRanks [of g t "Some d"]] .
  show ?thesis
    unfolding treeInv_def ids1 eg1
  proof (intro conjI ballI)
    show "distinct (map nid (nodes t))" by (rule dist)
    show "ids t \<subseteq> ids g" by (rule sub)
  next
    fix te assume te: "te \<in> set (edges t)"
    with ti show "source te \<in> ids t" "target te \<in> ids t" by (auto simp: treeInv_def)
    from ti te obtain e where e: "e \<in> set (edges g)" "eid e = eid te" "slack g e = Some 0"
      and st: "(source e = source te \<and> target e = target te) \<or>
               (source e = target te \<and> target e = source te)"
      and ends: "source te \<in> ids t" "target te \<in> ids t"
      unfolding treeInv_def by blast
    from st ends have "source e \<in> ids t" "target e \<in> ids t" by auto
    with slack_shiftRanks [OF dist sub e(3), of d] have "slack ?g1 e = Some 0" by simp
    with e st show "\<exists>e \<in> set (edges g). eid e = eid te \<and> slack ?g1 e = Some 0 \<and>
            ((source e = source te \<and> target e = target te) \<or>
             (source e = target te \<and> target e = source te))"
      by blast
  qed
qed

lemma feasibleTree_ok:
  assumes wf: "wellFormed g" and con: "connected g" and fe: "feasible g"
    and ne: "nodes g \<noteq> []" and fuel: "length (nodes g) < fuel"
  shows "\<exists>t g'. feasibleTree fuel g = Some (Inr (t, g')) \<and> same g g' \<and> feasible g' \<and>
           treeInv g' t \<and> length (nodes t) = length (nodes g)"
proof -
  from ne obtain start rest where ns: "nodes g = start # rest" by (cases "nodes g") auto
  define t0 where "t0 = addNode emptyGraph start"
  have i0: "ids t0 = {nid start}" by (simp add: t0_def ids_def addNode_def emptyGraph_def)
  have sg: "nid start \<in> ids g" using ns by (simp add: ids_def)
  have ti0: "treeInv g t0"
    using sg by (simp add: treeInv_def i0) (simp add: t0_def addNode_def emptyGraph_def)
  have "card (ids g - ids t0) \<le> card (ids g)" by (rule card_mono) (auto simp: finite_ids)
  with card_ids_le [of g] fuel have c: "card (ids g - ids t0) < fuel" by simp
  from whileTight_ok [OF wf con same_refl fe ti0 _ fuel, of "nid start" fuel] c i0
  obtain t g' where "whileTight fuel fuel (length (nodes g)) t0 g = Some (Inr (t, g'))"
    and "same g g'" "feasible g'" "treeInv g' t" "length (nodes t) = length (nodes g)"
    by auto
  moreover have "feasibleTree fuel g = whileTight fuel fuel (length (nodes g)) t0 g"
    by (simp add: feasibleTree_def ns t0_def)
  ultimately show ?thesis by auto
qed

text \<open>
  The same constraint without the slack: the rank of the target minus the rank of the
  source is at least the \<open>minlen\<close>.
\<close>

definition respectsMinlen :: "Graph \<Rightarrow> bool" where
  "respectsMinlen g =
     (\<forall>e \<in> set (edges g).
        case (rankOf g (target e), rankOf g (source e), minlen e) of
          (Some rt, Some rs, Some m) \<Rightarrow> m \<le> rt - rs
        | _ \<Rightarrow> False)"

lemma feasible_respectsMinlen: "feasible g \<longleftrightarrow> respectsMinlen g"
  unfolding feasible_def respectsMinlen_def
  by (intro ball_cong refl) (auto simp: slack_def minus_opt_def split: option.splits)

lemma spanning_ids:
  assumes "wellFormed g" and "treeInv g' t" and "same g g'"
    and "length (nodes t) = length (nodes g)"
  shows "ids t = ids g"
proof -
  from assms(2) have d: "distinct (map nid (nodes t))" and s: "ids t \<subseteq> ids g'"
    by (auto simp: treeInv_def)
  have "card (ids t) = card (ids g)"
    using card_ids_distinct [OF d] card_ids_distinct [of g] assms(1,4)
    by (simp add: wellFormed_def)
  moreover have "ids t \<subseteq> ids g" using s same_ids [OF assms(3)] by simp
  ultimately show ?thesis by (intro card_subset_eq) (auto simp: finite_ids)
qed

section \<open>Facts about \<open>buildLayerGraph\<close>\<close>

text \<open>
  What \<open>aggregateEdge\<close> does to the edges of the result, as a function on the list
  of edges alone.
\<close>

definition aggE :: "ID \<Rightarrow> Edge \<Rightarrow> Edge list \<Rightarrow> Edge list" where
  "aggE v e E =
     (case find (\<lambda>x. source x = other v e \<and> target x = v) E of
        None \<Rightarrow> E @ [\<lparr>eid = eid e, source = other v e, target = v, minlen = None,
                        weight = jadd (weight e) (Fin 0)\<rparr>]
      | Some x \<Rightarrow> map (\<lambda>y. if eid y = eid x
                              then y\<lparr>minlen := minlen x, weight := jadd (weight e) (weight x)\<rparr>
                              else y) E)"

lemma find_filter: "find P (filter Q xs) = find (\<lambda>x. Q x \<and> P x) xs"
  by (induction xs) auto

lemma edges_addNode: "edges (addNode r n) = edges r"
  by (simp add: addNode_def)

lemma edges_aggregateEdge: "edges (aggregateEdge g v e r) = aggE v e (edges r)"
proof -
  define u where "u = (if source e = v then target e else source e)"
  define r1 where "r1 = (if \<not> hasNode r u
                then (case getNode g u of None \<Rightarrow> r | Some n \<Rightarrow> addNode r n) else r)"
  have uo: "u = other v e" by (auto simp: u_def other_def)
  have e1: "edges r1 = edges r" by (simp add: r1_def edges_addNode split: option.splits)
  have f: "find (\<lambda>x. target x = v) (getRelatedEdges r1 u Out)
            = find (\<lambda>x. source x = other v e \<and> target x = v) (edges r)"
    by (simp add: find_filter e1 uo)
  show ?thesis
    unfolding aggregateEdge_def Let_def u_def [symmetric] r1_def [symmetric] f
    by (simp add: aggE_def uo e1 addEdge_def updateEdgeData_def split: option.splits)
qed

definition pairOf :: "Edge \<Rightarrow> ID \<times> ID" where
  "pairOf x = (source x, target x)"

definition edgeInv :: "Edge list \<Rightarrow> bool" where
  "edgeInv E = (distinct (map eid E) \<and> distinct (map pairOf E))"

definition wt :: "Edge list \<Rightarrow> ID \<times> ID \<Rightarrow> jsnum option" where
  "wt E k = map_option weight (find (\<lambda>x. pairOf x = k) E)"

lemma find_pair: "find (\<lambda>x. source x = a \<and> target x = b) E = find (\<lambda>x. pairOf x = (a, b)) E"
  by (simp add: pairOf_def)

lemma find_None_pair: "find (\<lambda>x. pairOf x = k) E = None \<longleftrightarrow> k \<notin> pairOf ` set E"
  by (auto simp: find_None_iff)

lemma aggE_new:
  assumes "find (\<lambda>x. pairOf x = (other v e, v)) E = None"
  shows "aggE v e E = E @ [\<lparr>eid = eid e, source = other v e, target = v, minlen = None,
                        weight = jadd (weight e) (Fin 0)\<rparr>]"
  using assms by (simp add: aggE_def find_pair)

lemma map_upd_pairs:
  "map pairOf (map (\<lambda>y. if eid y = i then y\<lparr>minlen := m, weight := w\<rparr> else y) E) = map pairOf E"
  by (induction E) (auto simp: pairOf_def)

lemma map_upd_eids:
  "map eid (map (\<lambda>y. if eid y = i then y\<lparr>minlen := m, weight := w\<rparr> else y) E) = map eid E"
  by (induction E) auto

lemma set_upd_eids:
  "eid ` set (map (\<lambda>y. if eid y = i then y\<lparr>minlen := m, weight := w\<rparr> else y) E) = eid ` set E"
  by (induction E) auto

lemma set_upd_pairs:
  "pairOf ` set (map (\<lambda>y. if eid y = i then y\<lparr>minlen := m, weight := w\<rparr> else y) E)
     = pairOf ` set E"
  by (induction E) (auto simp: pairOf_def)

lemma find_upd:
  "find (\<lambda>z. pairOf z = k) (map (\<lambda>y. if eid y = i then y\<lparr>minlen := m, weight := w\<rparr> else y) E)
     = map_option (\<lambda>y. if eid y = i then y\<lparr>minlen := m, weight := w\<rparr> else y)
         (find (\<lambda>z. pairOf z = k) E)"
  by (induction E) (auto simp: pairOf_def)

lemma find_app:
  "find P (xs @ ys) = (case find P xs of None \<Rightarrow> find P ys | Some x \<Rightarrow> Some x)"
  by (induction xs) auto

lemma find_in: "find P E = Some x \<Longrightarrow> x \<in> set E \<and> P x"
  by (auto simp: find_Some_iff)

lemma same_eid: "distinct (map eid E) \<Longrightarrow> x \<in> set E \<Longrightarrow> y \<in> set E \<Longrightarrow> eid x = eid y \<Longrightarrow> x = y"
  by (meson distinct_map inj_onD)

text \<open>One step of the aggregation.\<close>

lemma aggE_step:
  assumes inv: "edgeInv E" and fresh: "eid e \<notin> eid ` set E"
  shows "edgeInv (aggE v e E) \<and> eid ` set (aggE v e E) \<subseteq> insert (eid e) (eid ` set E) \<and>
      pairOf ` set (aggE v e E) = insert (other v e, v) (pairOf ` set E) \<and>
      wt (aggE v e E) k =
           (if k = (other v e, v)
            then Some (jadd (weight e) (case wt E k of None \<Rightarrow> Fin 0 | Some w \<Rightarrow> w))
            else wt E k)"
proof -
  let ?k = "(other v e, v)"
  show ?thesis
  proof (cases "find (\<lambda>x. pairOf x = ?k) E")
    case None
    then have nk: "?k \<notin> pairOf ` set E" by (simp add: find_None_pair)
    let ?n = "\<lparr>eid = eid e, source = other v e, target = v, minlen = None,
                        weight = jadd (weight e) (Fin 0)\<rparr>"
    have a: "aggE v e E = E @ [?n]" using aggE_new [OF None] .
    have pn: "pairOf ?n = ?k" by (simp add: pairOf_def)
    have 1: "edgeInv (E @ [?n])"
      using inv fresh nk by (auto simp: edgeInv_def pn)
    have 4: "wt (E @ [?n]) k =
           (if k = ?k then Some (jadd (weight e) (case wt E k of None \<Rightarrow> Fin 0 | Some w \<Rightarrow> w))
            else wt E k)"
    proof (cases "k = ?k")
      case True
      with None show ?thesis by (simp add: wt_def find_app pn)
    next
      case False
      then show ?thesis
        by (cases "find (\<lambda>x. pairOf x = k) E") (auto simp: wt_def find_app pn)
    qed
    show ?thesis
      unfolding a using 1 4 pn by auto
  next
    case (Some x)
    from find_in [OF Some] have xin: "x \<in> set E" and px: "pairOf x = ?k" by auto
    let ?f = "\<lambda>y. if eid y = eid x
                   then y\<lparr>minlen := minlen x, weight := jadd (weight e) (weight x)\<rparr> else y"
    have a: "aggE v e E = map ?f E" using Some by (simp add: aggE_def find_pair)
    have 1: "edgeInv (map ?f E)"
      unfolding edgeInv_def map_upd_pairs map_upd_eids using inv by (simp add: edgeInv_def)
    have 2: "eid ` set (map ?f E) = eid ` set E" by (rule set_upd_eids)
    have 3: "pairOf ` set (map ?f E) = pairOf ` set E" by (rule set_upd_pairs)
    have 4: "wt (map ?f E) k =
           (if k = ?k then Some (jadd (weight e) (case wt E k of None \<Rightarrow> Fin 0 | Some w \<Rightarrow> w))
            else wt E k)"
    proof (cases "k = ?k")
      case True
      with Some show ?thesis by (simp add: wt_def find_upd)
    next
      case False
      show ?thesis
      proof (cases "find (\<lambda>z. pairOf z = k) E")
        case None
        with False show ?thesis by (simp add: wt_def find_upd)
      next
        case (Some y)
        from find_in [OF Some] have yin: "y \<in> set E" and py: "pairOf y = k" by auto
        have "eid y \<noteq> eid x"
          using same_eid [OF _ yin xin] inv py px False by (auto simp: edgeInv_def)
        with Some False show ?thesis by (simp add: wt_def find_upd)
      qed
    qed
    have "?k \<in> pairOf ` set E" using xin px by force
    then show ?thesis
      unfolding a using 1 2 3 4 by auto
  qed
qed


definition keyOf :: "ID \<times> Edge \<Rightarrow> ID \<times> ID" where
  "keyOf p = (other (fst p) (snd p), fst p)"

definition total :: "jsnum \<Rightarrow> jsnum list \<Rightarrow> jsnum" where
  "total b ws = foldl (\<lambda>acc w. jadd w acc) b ws"

definition base :: "Edge list \<Rightarrow> ID \<times> ID \<Rightarrow> jsnum" where
  "base E k = (case wt E k of None \<Rightarrow> Fin 0 | Some w \<Rightarrow> w)"

definition weightsFor :: "ID \<times> ID \<Rightarrow> (ID \<times> Edge) list \<Rightarrow> jsnum list" where
  "weightsFor k P = map (\<lambda>p. weight (snd p)) (filter (\<lambda>p. keyOf p = k) P)"

lemma aggAll:
  "edgeInv E \<Longrightarrow> distinct (map (\<lambda>p. eid (snd p)) P) \<Longrightarrow>
   (\<lambda>p. eid (snd p)) ` set P \<inter> eid ` set E = {} \<Longrightarrow>
   edgeInv (fold (\<lambda>p. aggE (fst p) (snd p)) P E) \<and>
   pairOf ` set (fold (\<lambda>p. aggE (fst p) (snd p)) P E) = keyOf ` set P \<union> pairOf ` set E \<and>
   wt (fold (\<lambda>p. aggE (fst p) (snd p)) P E) k =
     (if weightsFor k P = [] then wt E k else Some (total (base E k) (weightsFor k P)))"
proof (induction P arbitrary: E)
  case Nil
  then show ?case by (simp add: weightsFor_def)
next
  case (Cons p P)
  let ?E1 = "aggE (fst p) (snd p) E"
  have fresh: "eid (snd p) \<notin> eid ` set E" using Cons.prems(3) by auto
  from aggE_step [OF Cons.prems(1) fresh, of "fst p" k]
  have inv1: "edgeInv ?E1" and ids1: "eid ` set ?E1 \<subseteq> insert (eid (snd p)) (eid ` set E)"
    and pr1: "pairOf ` set ?E1 = insert (keyOf p) (pairOf ` set E)"
    and w1: "wt ?E1 k = (if k = keyOf p
                          then Some (jadd (weight (snd p)) (base E k)) else wt E k)"
    by (auto simp: keyOf_def base_def)
  have d: "distinct (map (\<lambda>p. eid (snd p)) P)" using Cons.prems(2) by simp
  have dj: "(\<lambda>p. eid (snd p)) ` set P \<inter> eid ` set ?E1 = {}"
  proof -
    have "(\<lambda>p. eid (snd p)) ` set P \<inter> insert (eid (snd p)) (eid ` set E) = {}"
      using Cons.prems(2,3) by auto
    with ids1 show ?thesis by blast
  qed
  from Cons.IH [OF inv1 d dj]
  have invF: "edgeInv (fold (\<lambda>p. aggE (fst p) (snd p)) P ?E1)"
    and prF: "pairOf ` set (fold (\<lambda>p. aggE (fst p) (snd p)) P ?E1) = keyOf ` set P \<union> pairOf ` set ?E1"
    and wF: "wt (fold (\<lambda>p. aggE (fst p) (snd p)) P ?E1) k =
       (if weightsFor k P = [] then wt ?E1 k else Some (total (base ?E1 k) (weightsFor k P)))"
    by auto
  have "wt (fold (\<lambda>p. aggE (fst p) (snd p)) P ?E1) k =
     (if weightsFor k (p # P) = [] then wt E k else Some (total (base E k) (weightsFor k (p # P))))"
  proof (cases "keyOf p = k")
    case True
    then have ws: "weightsFor k (p # P) = weight (snd p) # weightsFor k P"
      by (simp add: weightsFor_def)
    have b1: "base ?E1 k = jadd (weight (snd p)) (base E k)" "wt ?E1 k = Some (jadd (weight (snd p)) (base E k))"
      using w1 True by (auto simp: base_def)
    show ?thesis unfolding wF ws b1 by (simp add: total_def)
  next
    case False
    then have ws: "weightsFor k (p # P) = weightsFor k P" by (simp add: weightsFor_def)
    have b1: "wt ?E1 k = wt E k" "base ?E1 k = base E k" using w1 False by (auto simp: base_def)
    show ?thesis unfolding wF ws b1 by simp
  qed
  moreover have "pairOf ` set (fold (\<lambda>p. aggE (fst p) (snd p)) P ?E1)
      = keyOf ` set (p # P) \<union> pairOf ` set E"
    unfolding prF pr1 by auto
  ultimately show ?case using invF by simp
qed

lemma filter_single:
  "distinct (map pairOf E) \<Longrightarrow> find (\<lambda>x. pairOf x = k) E = Some x \<Longrightarrow>
   filter (\<lambda>x. pairOf x = k) E = [x]"
proof (induction E)
  case Nil
  then show ?case by simp
next
  case (Cons a E)
  show ?case
  proof (cases "pairOf a = k")
    case True
    with Cons.prems have "a = x" and "k \<notin> pairOf ` set E" by auto
    then have "filter (\<lambda>x. pairOf x = k) E = []" by (auto simp: filter_empty_conv)
    with True \<open>a = x\<close> show ?thesis by simp
  next
    case False
    with Cons show ?thesis by simp
  qed
qed

text \<open>
  The edges of the layer graph are the aggregation of the entries of all materialized
  nodes, in the order of the nodes.
\<close>

definition entriesOf :: "Graph \<Rightarrow> direction \<Rightarrow> Node \<Rightarrow> (ID \<times> Edge) list" where
  "entriesOf g dir v = map (Pair (nid v)) (getRelatedEdges g (nid v) dir)"

definition processed :: "Graph \<Rightarrow> int \<Rightarrow> direction \<Rightarrow> Node list \<Rightarrow> (ID \<times> Edge) list" where
  "processed g r dir ns = concat (map (entriesOf g dir) (filter (\<lambda>v. materialized v r) ns))"

lemma edges_fold_aggregate:
  "edges (fold (aggregateEdge g v) es r) = fold (\<lambda>p. aggE (fst p) (snd p)) (map (Pair v) es) (edges r)"
  by (induction es arbitrary: r) (simp_all add: edges_aggregateEdge)

lemma edges_setParent: "edges (setParent r v p) = edges r"
  by (simp add: setParent_def)

lemma edges_updateNodeData: "edges (updateNodeData r i n) = edges r"
  by (simp add: updateNodeData_def)

lemma edges_layerNode:
  assumes "layerNode g r dir rootId v result = Inr result'"
  shows "edges result' =
     fold (\<lambda>p. aggE (fst p) (snd p)) (if materialized v r then entriesOf g dir v else []) (edges result)"
proof (cases "materialized v r")
  case False
  with assms show ?thesis by (simp add: layerNode_def)
next
  case True
  define par where "par = (case getParent g (nid v) of
                      None \<Rightarrow> None
                    | Some p \<Rightarrow> if nid p = [] then None else Some p)"
  define r1 where "r1 = (if \<not> hasNode result (nid v) then addNode result v else result)"
  define r2 where "r2 = (case par of
                     None \<Rightarrow> r1
                   | Some p \<Rightarrow> if \<not> hasNode r1 (nid p) then addNode r1 p else r1)"
  define r3 where "r3 = setParent r2 (nid v) (case par of None \<Rightarrow> rootId | Some p \<Rightarrow> nid p)"
  define r4 where "r4 = fold (aggregateEdge g (nid v)) (getRelatedEdges g (nid v) dir) r3"
  have e3: "edges r3 = edges result"
    by (simp add: r3_def r2_def r1_def edges_setParent edges_addNode split: option.splits)
  have e4: "edges r4 = fold (\<lambda>p. aggE (fst p) (snd p)) (entriesOf g dir v) (edges result)"
    by (simp add: r4_def edges_fold_aggregate e3 entriesOf_def)
  have "edges result' = edges r4"
    using assms True
    unfolding layerNode_def Let_def par_def [symmetric] r1_def [symmetric] r2_def [symmetric]
      r3_def [symmetric] r4_def [symmetric]
    by (auto simp: edges_updateNodeData split: if_splits option.splits)
  with e4 True show ?thesis by simp
qed

lemma edges_layerNodes:
  "layerNodes g r dir rootId ns result = Inr lg \<Longrightarrow>
   edges lg = fold (\<lambda>p. aggE (fst p) (snd p)) (processed g r dir ns) (edges result)"
proof (induction ns arbitrary: result)
  case Nil
  then show ?case by (simp add: processed_def)
next
  case (Cons v ns)
  from Cons.prems obtain result' where 1: "layerNode g r dir rootId v result = Inr result'"
    and 2: "layerNodes g r dir rootId ns result' = Inr lg"
    by (auto split: sum.splits)
  from Cons.IH [OF 2] edges_layerNode [OF 1] show ?case
    by (simp add: processed_def)
qed

lemma edges_buildLayerGraph:
  "buildLayerGraph rootId g r dir = Inr lg \<Longrightarrow>
   edges lg = fold (\<lambda>p. aggE (fst p) (snd p)) (processed g r dir (nodes g)) []"
  unfolding buildLayerGraph_def using edges_layerNodes [of g r dir rootId "nodes g" _ lg] by simp

text \<open>The entries of one pair of end points come from one node.\<close>

lemma keyOf_entries: "p \<in> set (entriesOf g dir v) \<Longrightarrow> snd (keyOf p) = nid v"
  by (auto simp: entriesOf_def keyOf_def)

lemma filter_entries_other:
  "w \<noteq> nid v \<Longrightarrow> filter (\<lambda>p. keyOf p = (u, w)) (entriesOf g dir v) = []"
  by (auto simp: filter_empty_conv dest: keyOf_entries)

lemma filter_entries_same:
  "filter (\<lambda>p. keyOf p = (u, nid v)) (entriesOf g dir v)
     = map (Pair (nid v)) (filter (\<lambda>e. other (nid v) e = u) (getRelatedEdges g (nid v) dir))"
  by (simp add: entriesOf_def filter_map comp_def keyOf_def)

lemma filter_processed:
  assumes "distinct (map nid ns)" and "v \<in> set ns" and "materialized v r"
  shows "filter (\<lambda>p. keyOf p = (u, nid v)) (processed g r dir ns)
     = map (Pair (nid v)) (filter (\<lambda>e. other (nid v) e = u) (getRelatedEdges g (nid v) dir))"
  using assms
proof (induction ns)
  case Nil
  then show ?case by simp
next
  case (Cons a ns)
  show ?case
  proof (cases "a = v")
    case True
    have "\<forall>b \<in> set ns. nid v \<noteq> nid b" using Cons.prems(1) True by auto
    then have "filter (\<lambda>p. keyOf p = (u, nid v)) (processed g r dir ns) = []"
      by (induction ns) (auto simp: processed_def filter_entries_other)
    with True Cons.prems(3) show ?thesis
      by (simp add: processed_def filter_entries_same)
  next
    case False
    with Cons.prems have v: "v \<in> set ns" and d: "distinct (map nid ns)" by auto
    have "nid v \<in> nid ` set ns" using v by (rule imageI)
    moreover have "nid a \<notin> nid ` set ns" using Cons.prems(1) by simp
    ultimately have "nid v \<noteq> nid a" by metis
    with Cons.IH [OF d v Cons.prems(3)] show ?thesis
      by (simp add: processed_def filter_entries_other)
  qed
qed


definition endAt :: "direction \<Rightarrow> Edge \<Rightarrow> ID" where
  "endAt dir e = (if dir = In then target e else source e)"

lemma related_endAt:
  "dir \<noteq> Both \<Longrightarrow> getRelatedEdges g w dir = filter (\<lambda>e. endAt dir e = w) (edges g)"
  by (cases dir) (simp_all add: endAt_def)

lemma eids_entries:
  "dir \<noteq> Both \<Longrightarrow>
   map (\<lambda>p. eid (snd p)) (entriesOf g dir v) = map eid (filter (\<lambda>e. endAt dir e = nid v) (edges g))"
  by (simp add: entriesOf_def related_endAt comp_def)

lemma distinct_processed:
  assumes nb: "dir \<noteq> Both" and de: "distinct (map eid (edges g))"
  shows "distinct (map nid ns) \<Longrightarrow> distinct (map (\<lambda>p. eid (snd p)) (processed g r dir ns))"
proof (induction ns)
  case Nil
  then show ?case by (simp add: processed_def)
next
  case (Cons a ns)
  then have IH: "distinct (map (\<lambda>p. eid (snd p)) (processed g r dir ns))" by simp
  show ?case
  proof (cases "materialized a r")
    case False
    with IH show ?thesis by (simp add: processed_def)
  next
    case True
    have A: "distinct (map (\<lambda>p. eid (snd p)) (entriesOf g dir a))"
      unfolding eids_entries [OF nb] using de by (rule distinct_map_filter)
    have disj: "set (map (\<lambda>p. eid (snd p)) (entriesOf g dir a))
                  \<inter> set (map (\<lambda>p. eid (snd p)) (processed g r dir ns)) = {}"
    proof (rule ccontr)
      assume "\<not> ?thesis"
      then obtain i where i1: "i \<in> set (map (\<lambda>p. eid (snd p)) (entriesOf g dir a))"
        and i2: "i \<in> set (map (\<lambda>p. eid (snd p)) (processed g r dir ns))"
        by auto
      from i1 obtain e1 where e1: "e1 \<in> set (edges g)" "endAt dir e1 = nid a" "eid e1 = i"
        unfolding eids_entries [OF nb] by auto
      from i2 obtain b where b: "b \<in> set ns"
        and "i \<in> set (map (\<lambda>p. eid (snd p)) (entriesOf g dir b))"
        by (auto simp: processed_def)
      then obtain e2 where e2: "e2 \<in> set (edges g)" "endAt dir e2 = nid b" "eid e2 = i"
        unfolding eids_entries [OF nb] by auto
      from same_eid [OF de e1(1) e2(1)] e1(3) e2(3) have "e1 = e2" by simp
      with e1(2) e2(2) have "nid a = nid b" by simp
      moreover have "nid b \<in> nid ` set ns" using b by (rule imageI)
      moreover have "nid a \<notin> nid ` set ns" using Cons.prems by simp
      ultimately show False by metis
    qed
    from A IH disj True show ?thesis by (simp add: processed_def)
  qed
qed

lemma processed_mem:
  "p \<in> set (processed g r dir ns) \<Longrightarrow>
   \<exists>v \<in> set ns. materialized v r \<and> fst p = nid v \<and> snd p \<in> set (getRelatedEdges g (nid v) dir)"
  by (auto simp: processed_def entriesOf_def)

lemma related_pair:
  assumes "dir \<noteq> Both" and "e \<in> set (getRelatedEdges g w dir)"
  shows "e \<in> set (edges g) \<and>
         (if dir = In then (other w e, w) else (w, other w e)) = (source e, target e)"
  using assms by (cases dir) (auto simp: other_def)

lemma layer_edges:
  assumes de: "distinct (map eid (edges g))" and dn: "distinct (map nid (nodes g))"
    and nb: "dir \<noteq> Both"
    and b: "buildLayerGraph rootId g r dir = Inr lg"
    and v: "v \<in> set (nodes g)" "materialized v r"
    and e0: "e0 \<in> set (getRelatedEdges g (nid v) dir)"
  shows "\<exists>re. filter (\<lambda>x. source x = other (nid v) e0 \<and> target x = nid v) (edges lg) = [re] \<and>
           weight re = sumWeights (map weight
             (filter (\<lambda>e. other (nid v) e = other (nid v) e0) (getRelatedEdges g (nid v) dir)))"
    and "acyclic (edgeRel g) \<Longrightarrow>
           other (nid v) e0 \<noteq> nid v \<and>
           filter (\<lambda>x. source x = nid v \<and> target x = other (nid v) e0) (edges lg) = []"
proof -
  let ?u = "other (nid v) e0"
  let ?P = "processed g r dir (nodes g)"
  let ?k = "(?u, nid v)"
  have E: "edges lg = fold (\<lambda>p. aggE (fst p) (snd p)) ?P []"
    using edges_buildLayerGraph [OF b] .
  have inv0: "edgeInv []" by (simp add: edgeInv_def)
  have dP: "distinct (map (\<lambda>p. eid (snd p)) ?P)" using distinct_processed [OF nb de dn] .
  from aggAll [OF inv0 dP, of ?k]
  have inv: "edgeInv (edges lg)" and pr: "pairOf ` set (edges lg) = keyOf ` set ?P"
    and w: "wt (edges lg) ?k =
       (if weightsFor ?k ?P = [] then wt [] ?k else Some (total (base [] ?k) (weightsFor ?k ?P)))"
    unfolding E by auto
  let ?ws = "map weight (filter (\<lambda>e. other (nid v) e = ?u) (getRelatedEdges g (nid v) dir))"
  have ws: "weightsFor ?k ?P = ?ws"
    unfolding weightsFor_def filter_processed [OF dn v] by (simp add: comp_def)
  have ne: "?ws \<noteq> []" using e0 by (auto simp: filter_empty_conv)
  have "wt (edges lg) ?k = Some (sumWeights ?ws)"
    unfolding w ws using ne by (simp add: total_def sumWeights_def base_def wt_def)
  then obtain re where f: "find (\<lambda>x. pairOf x = ?k) (edges lg) = Some re"
    and wr: "weight re = sumWeights ?ws"
    by (auto simp: wt_def)
  from inv have "distinct (map pairOf (edges lg))" by (simp add: edgeInv_def)
  from filter_single [OF this f] have "filter (\<lambda>x. pairOf x = ?k) (edges lg) = [re]" .
  then have "filter (\<lambda>x. source x = ?u \<and> target x = nid v) (edges lg) = [re]"
    by (simp add: pairOf_def)
  with wr show "\<exists>re. filter (\<lambda>x. source x = ?u \<and> target x = nid v) (edges lg) = [re] \<and>
           weight re = sumWeights ?ws"
    by blast
  show "other (nid v) e0 \<noteq> nid v \<and>
           filter (\<lambda>x. source x = nid v \<and> target x = other (nid v) e0) (edges lg) = []"
    if acy: "acyclic (edgeRel g)"
  proof -
    from related_pair [OF nb e0]
    have a0: "e0 \<in> set (edges g)"
      and p0: "(if dir = In then (?u, nid v) else (nid v, ?u)) = (source e0, target e0)"
      by auto
    have r0: "(if dir = In then (?u, nid v) else (nid v, ?u)) \<in> edgeRel g"
      unfolding p0 using edgeRel_step [OF a0] .
    have neq: "?u \<noteq> nid v"
    proof
      assume "?u = nid v"
      with r0 have "(nid v, nid v) \<in> edgeRel g" by (simp split: if_splits)
      then have "(nid v, nid v) \<in> (edgeRel g)\<^sup>+" by (rule r_into_trancl)
      with acy show False by (auto simp: acyclic_def)
    qed
    have "filter (\<lambda>x. source x = nid v \<and> target x = ?u) (edges lg) = []"
    proof (rule ccontr)
      assume "\<not> ?thesis"
      then obtain x where "x \<in> set (edges lg)" "source x = nid v" "target x = ?u"
        by (auto simp: filter_empty_conv)
      then have "(nid v, ?u) \<in> pairOf ` set (edges lg)" by (force simp: pairOf_def)
      with pr obtain p where p: "p \<in> set ?P" "keyOf p = (nid v, ?u)" by auto
      from processed_mem [OF p(1)] obtain v' :: Node where v': "fst p = nid v'"
        "snd p \<in> set (getRelatedEdges g (nid v') dir)"
        by blast
      from p(2) v'(1) have k: "nid v' = ?u" "other ?u (snd p) = nid v" by (auto simp: keyOf_def)
      from related_pair [OF nb v'(2)] k
      have a1: "snd p \<in> set (edges g)"
        and p1: "(if dir = In then (nid v, ?u) else (?u, nid v)) = (source (snd p), target (snd p))"
        by auto
      have r1: "(if dir = In then (nid v, ?u) else (?u, nid v)) \<in> edgeRel g"
        unfolding p1 using edgeRel_step [OF a1] .
      from r0 r1 have "(nid v, ?u) \<in> edgeRel g" "(?u, nid v) \<in> edgeRel g"
        by (auto split: if_splits)
      then have "(nid v, nid v) \<in> (edgeRel g)\<^sup>+" by (meson trancl.simps)
      with acy show False by (auto simp: acyclic_def)
    qed
    with neq show ?thesis by simp
  qed
qed

section \<open>Facts about \<open>resolveConflicts\<close>\<close>



















subsection \<open>The loop of \<open>doResolveConflicts\<close> as a topological sort\<close>



























section \<open>Facts about \<open>feasibleTree\<close> on any graph\<close>























text \<open>
  Feasible ranks: on a well-formed acyclic graph whose edges carry a \<open>minlen\<close> of at
  least one and none of whose ids is an inherited key, \<open>longestPath\<close> returns and
  leaves every edge with the rank of its target at least \<open>minlen\<close> above that of its
  source; \<open>feasibleTree\<close> on a connected graph with such ranks returns and keeps them so.
\<close>

lemma feasible_ranks:
  "(rankable g \<and> set inheritedKeys \<inter> ids g = {} \<and> length (nodes g) < fuel \<longrightarrow>
      (\<exists>g'. longestPath fuel g = Some g' \<and> same g g' \<and> feasible g' \<and> respectsMinlen g'))
   \<and> (rankable g \<and> connected g \<and> feasible g \<and> nodes g \<noteq> [] \<and> length (nodes g) < fuel \<longrightarrow>
      (\<exists>t g'. feasibleTree fuel g = Some (Inr (t, g')) \<and> same g g' \<and> feasible g'
          \<and> respectsMinlen g'))"
proof (intro conjI impI)
  assume "rankable g \<and> set inheritedKeys \<inter> ids g = {} \<and> length (nodes g) < fuel"
  then obtain g' where "longestPath fuel g = Some g'" "same g g'" "feasible g'"
    using longestPath_feasible [of g fuel] by blast
  then show "\<exists>g'. longestPath fuel g = Some g' \<and> same g g' \<and> feasible g' \<and> respectsMinlen g'"
    using feasible_respectsMinlen by blast
next
  assume "rankable g \<and> connected g \<and> feasible g \<and> nodes g \<noteq> [] \<and> length (nodes g) < fuel"
  then obtain t g' where "feasibleTree fuel g = Some (Inr (t, g'))" "same g g'" "feasible g'"
    using feasibleTree_ok [of g fuel] by (auto simp: rankable_def)
  then show "\<exists>t g'. feasibleTree fuel g = Some (Inr (t, g')) \<and> same g g' \<and> feasible g'
          \<and> respectsMinlen g'"
    using feasible_respectsMinlen by blast
qed

lemma constructorSink_rankable:
  "rankable constructorSink \<and> connected constructorSink \<and> nodes constructorSink \<noteq> []"
  by code_simp
























section \<open>Claims about conflict resolution\<close>

text \<open>
  Claim C6 (conflict resolution soundness): for every constraint edge \<open>u \<rightarrow> v\<close> with both
  endpoints among the entries, \<open>u\<close> is said to end up left of \<open>v\<close> in one block or in a
  block that is not after the block of \<open>v\<close>. The run below is on four entries
  \<open>c, a, b, y\<close> with barycenters \<open>2, 3, 1, 0\<close> (weights \<open>1\<close>) and the acyclic
  constraints \<open>c \<rightarrow> b\<close>, \<open>c \<rightarrow> a\<close>, \<open>a \<rightarrow> y\<close>, \<open>b \<rightarrow> y\<close>. It returns the single block
  \<open>[a, c, b, y]\<close>, in which \<open>a\<close> stands left of \<open>c\<close> although \<open>c \<rightarrow> a\<close> is a constraint:
  \<open>c\<close> is first merged into \<open>b\<close>, the block \<open>[c, b]\<close> into \<open>y\<close>, and \<open>a\<close> is then put in
  front of all of them.
\<close>

theorem resolveConflicts_diamond_puts_a_before_c:
  "resolveConflicts
     [withBary ''c'' 2 1, withBary ''a'' 3 1, withBary ''b'' 1 1, withBary ''y'' 0 1]
     (constraintGraph [''c'', ''a'', ''b'', ''y'']
        [(''c'', ''b''), (''c'', ''a''), (''a'', ''y''), (''b'', ''y'')])
   = [\<lparr>r_vs = [''a'', ''c'', ''b'', ''y''], r_i = 0,
       r_barycenter = Some (Fin (3 / 2)), r_weight = Some (Fin 4)\<rparr>]"
  by code_simp

text \<open>
  Claim C10 (merging two entries without barycenter): when \<open>handleIn\<close> meets an unmerged
  predecessor \<open>u\<close> of \<open>v\<close> and neither entry has a barycenter or a weight, the two are
  merged, the barycenter of the surviving entry is the quotient \<open>0/0\<close>, which is NaN, its
  weight is \<open>0\<close>, and both fields are present in the picked output entry.
\<close>

theorem merge_without_barycenters_gives_NaN:
  assumes "getE st v = Some ve" and "getE st u = Some ue" and "u \<noteq> v"
    and "\<not> merged ue"
    and "barycenter ue = None" and "cweight ue = None"
    and "barycenter ve = None" and "cweight ve = None"
  shows "\<exists>ve'. getE (handleIn v u st) v = Some ve'
           \<and> barycenter ve' = Some (jdiv (Fin 0) (Fin 0))
           \<and> r_barycenter (pick ve') = Some NaN
           \<and> r_weight (pick ve') = Some (Fin 0)
           \<and> r_vs (pick ve') = vs ue @ vs ve"
  using assms
  by (simp add: handleIn_def mergeEntries_def Let_def getE_upd pick_def signedInf_def)

text \<open>
  The same on a whole run: two nodes without incoming edges, so without barycenter, and
  one constraint between them.
\<close>

theorem merge_without_barycenters_gives_NaN_witness:
  "resolveConflicts [noBary ''u'', noBary ''w''] (constraintGraph [''u'', ''w''] [(''u'', ''w'')])
     = [\<lparr>r_vs = [''u'', ''w''], r_i = 0, r_barycenter = Some NaN, r_weight = Some (Fin 0)\<rparr>]
   \<and> (let st = fold addConstraint (edges (constraintGraph [''u'', ''w''] [(''u'', ''w'')]))
                  (mapEntries [noBary ''u'', noBary ''w''])
      in (\<exists>ve'. getE (handleIn ''w'' ''u'' st) ''w'' = Some ve'
           \<and> barycenter ve' = Some (jdiv (Fin 0) (Fin 0))
           \<and> r_barycenter (pick ve') = Some NaN
           \<and> r_weight (pick ve') = Some (Fin 0)
           \<and> r_vs (pick ve') = [''u'', ''w'']))"
proof -
  define st where "st = fold addConstraint (edges (constraintGraph [''u'', ''w''] [(''u'', ''w'')]))
                  (mapEntries [noBary ''u'', noBary ''w''])"
  have st: "st = [(''u'', \<lparr>idx = 0, indegree = 0, ins = [], outs = [''w''], vs = [''u''],
                       barycenter = None, cweight = None, merged = False\<rparr>),
                  (''w'', \<lparr>idx = 1, indegree = 1, ins = [], outs = [], vs = [''w''],
                       barycenter = None, cweight = None, merged = False\<rparr>)]"
    unfolding st_def by code_simp
  have run: "resolveConflicts [noBary ''u'', noBary ''w''] (constraintGraph [''u'', ''w''] [(''u'', ''w'')])
     = [\<lparr>r_vs = [''u'', ''w''], r_i = 0, r_barycenter = Some NaN, r_weight = Some (Fin 0)\<rparr>]"
    by code_simp
  have "\<exists>ve'. getE (handleIn ''w'' ''u'' st) ''w'' = Some ve'
           \<and> barycenter ve' = Some (jdiv (Fin 0) (Fin 0))
           \<and> r_barycenter (pick ve') = Some NaN
           \<and> r_weight (pick ve') = Some (Fin 0)
           \<and> r_vs (pick ve') = vs (snd (st ! 0)) @ vs (snd (st ! 1))"
    by (rule merge_without_barycenters_gives_NaN [where ue = "snd (st ! 0)" and ve = "snd (st ! 1)"])
       (simp_all add: st getE_def)
  then show ?thesis
    using run unfolding st_def [symmetric] Let_def by (simp add: st)
qed

section \<open>Claims about the ordering loop\<close>

text \<open>
  Claim C4 (bookkeeping of the best crossing count), as the code has it: an iteration
  never raises \<open>bestCC\<close>, and neither does a whole run of a loop; before the first loop
  no layering is recorded (\<open>best\<close> is undefined) and \<open>bestCC\<close> is infinite; after both
  loops \<open>bestCC\<close> is at most the count measured after the very first sweep, \<open>best\<close> is
  a layering that was measured after some sweep, \<open>bestCC\<close> is the count measured for it,
  and that layering is the one \<open>order\<close> assigns.
\<close>

theorem best_count_never_increases:
  "bestCC (iteration cs usePrev s) \<le> bestCC s
   \<and> bestCC (hillClimb cs usePrev s) \<le> bestCC s
   \<and> best (beforeFirstLoop cs g) = None
   \<and> bestCC (beforeFirstLoop cs g) = \<infinity>
   \<and> bestCC (afterLoops cs g) \<le> enat (cc cs False (beforeFirstLoop cs g))
   \<and> (\<exists>w. best (afterLoops cs g) = Some (buildLayerMatrix cs w)
          \<and> bestCC (afterLoops cs g) = enat (crossCount cs w (buildLayerMatrix cs w))
          \<and> order cs g = assignOrder cs (world (afterLoops cs g)) (buildLayerMatrix cs w))"
proof -
  have fin: "bestCC (afterLoops cs g) \<noteq> \<infinity>"
    using bestCC_afterLoops [of cs g] by (cases "bestCC (afterLoops cs g)") auto
  then obtain w where w: "best (afterLoops cs g) = Some (buildLayerMatrix cs w)"
      "bestCC (afterLoops cs g) = enat (crossCount cs w (buildLayerMatrix cs w))"
    using snapshot_afterLoops [of cs g] unfolding snapshot_def by auto
  then have "order cs g = assignOrder cs (world (afterLoops cs g)) (buildLayerMatrix cs w)"
    by (simp add: order_def Let_def)
  with w show ?thesis
    using bestCC_iteration [of cs usePrev s] bestCC_hillClimb [of cs usePrev s]
      bestCC_afterLoops [of cs g]
    by (auto simp: beforeFirstLoop_def)
qed

text \<open>
  Claim C4 as stated fails. No layering is recorded as the running best before the
  first loop. On the graph \<open>threeRows\<close> the initial order has five crossings; the first
  sweep, upwards, moves \<open>b1\<close> before \<open>b3\<close>, which leaves six; no later sweep of either
  loop measures fewer than six, and the layering that \<open>order\<close> assigns in the end is
  that of the first sweep, with six crossings.
\<close>

theorem initial_order_is_not_kept_as_best:
  "best (beforeFirstLoop (dagre ''_root'') (Some (Inr threeRows))) = None
   \<and> initOrder (dagre ''_root'') (Some (Inr threeRows))
       = Some (Inr [[''a0'', ''a2'', ''a1''], [''b2'', ''b0'', ''b3'', ''b1''],
                    [''c1'', ''c0'', ''c2'']])
   \<and> crossCount (dagre ''_root'') (Some (Inr threeRows))
         (initOrder (dagre ''_root'') (Some (Inr threeRows))) = 5
   \<and> bestCC (afterLoops (dagre ''_root'') (Some (Inr threeRows))) = enat 6
   \<and> (case order (dagre ''_root'') (Some (Inr threeRows)) of
        Some (Inr g) \<Rightarrow>
          buildLayerMatrixOf g
            = [[''a0'', ''a2'', ''a1''], [''b2'', ''b0'', ''b1'', ''b3''], [''c1'', ''c0'', ''c2'']]
          \<and> crossCountOf g (buildLayerMatrixOf g) = 6
      | _ \<Rightarrow> False)"
proof -
  have 1: "best (beforeFirstLoop (dagre ''_root'') (Some (Inr threeRows))) = None"
    by (simp add: beforeFirstLoop_def)
  have 2: "initOrder (dagre ''_root'') (Some (Inr threeRows))
       = Some (Inr [[''a0'', ''a2'', ''a1''], [''b2'', ''b0'', ''b3'', ''b1''],
                    [''c1'', ''c0'', ''c2'']])"
    by code_simp
  have 3: "crossCount (dagre ''_root'') (Some (Inr threeRows))
         (initOrder (dagre ''_root'') (Some (Inr threeRows))) = 5"
    by code_simp
  have 4: "bestCC (afterLoops (dagre ''_root'') (Some (Inr threeRows))) = enat 6"
    by code_simp
  have 5: "case order (dagre ''_root'') (Some (Inr threeRows)) of
        Some (Inr g) \<Rightarrow>
          buildLayerMatrixOf g
            = [[''a0'', ''a2'', ''a1''], [''b2'', ''b0'', ''b1'', ''b3''], [''c1'', ''c0'', ''c2'']]
          \<and> crossCountOf g (buildLayerMatrixOf g) = 6
      | _ \<Rightarrow> False"
    by code_simp
  from 1 2 3 4 5 show ?thesis by (intro conjI)
qed

text \<open>
  Claim C5 (when a loop stops) fails on the code. On the graph \<open>sideBySide\<close>, which
  has no edges, the first iteration of the first loop improves (zero crossings against
  infinity) and sets \<open>lastBest\<close> to zero, the update of the loop makes it one, the next
  three iterations do not improve, and the loop ends there: three further iterations,
  not four. The second loop, entered with \<open>lastBest = 0\<close>, never improves and runs four
  iterations.
\<close>

theorem three_iterations_after_improvement:
  "(let cs = dagre ''_root'';
        s = beforeFirstLoop cs (Some (Inr sideBySide))
    in improves cs False s
      \<and> \<not> improves cs False (iteration cs False s)
      \<and> \<not> improves cs False (iteration cs False (iteration cs False s))
      \<and> \<not> improves cs False (iteration cs False (iteration cs False (iteration cs False s)))
      \<and> iter (iteration cs False s) = 1
      \<and> iter (hillClimb cs False s) = 4
      \<and> iter (hillClimb cs False s) \<noteq> iter (iteration cs False s) + 4
      \<and> (let t = beforeSecondLoop cs (hillClimb cs False s)
         in iter t = 0
           \<and> \<not> improves cs True t
           \<and> \<not> improves cs True (iteration cs True t)
           \<and> \<not> improves cs True (iteration cs True (iteration cs True t))
           \<and> \<not> improves cs True (iteration cs True (iteration cs True (iteration cs True t)))
           \<and> iter (hillClimb cs True t) = 4))"
  by code_simp
section \<open>Claims about ranking\<close>

text \<open>
  Claim C1 (rank feasibility) fails on the code for a node whose id is the name of a
  member of \<open>Object.prototype\<close>. The graph with the one edge from \<open>a\<close> to \<open>constructor\<close>
  (\<open>minlen\<close> one) is acyclic, yet \<open>longestPath\<close> takes \<open>constructor\<close> for visited, returns
  its undefined rank and never assigns it one: afterwards \<open>a\<close> has rank \<open>0\<close>,
  \<open>constructor\<close> has none, and the slack of the edge is NaN, not a number that is
  at least zero.
\<close>

theorem longestPath_skips_constructor:
  "map_option ranks (longestPath 3 constructorSink)
     = Some [(''a'', Some 0), (''constructor'', None)]
   \<and> map_option (\<lambda>g. slack g (arc ''a'' ''constructor'' 1)) (longestPath 3 constructorSink)
       = Some None"
  by code_simp

text \<open>
  Claim C2 (tight-tree completeness): on a well-formed connected graph with at least one
  node and feasible ranks, \<open>feasibleTree\<close> returns (given a bound above the number of
  nodes); the tree it returns has as many nodes as the graph, and they are the nodes of
  the graph; every edge of the tree carries the id of an edge of the graph between the
  same two nodes, and that edge has slack zero under the ranks left in the graph.
  Shifting the ranks of the nodes of a tree keeps the slack of its edges at zero.
\<close>

theorem tight_tree_completeness:
  assumes "wellFormed g" and "connected g" and "feasible g"
    and "nodes g \<noteq> []" and "length (nodes g) < fuel"
  shows "(\<exists>t g'. feasibleTree fuel g = Some (Inr (t, g')) \<and> same g g'
            \<and> length (nodes t) = length (nodes g) \<and> ids t = ids g
            \<and> distinct (map nid (nodes t))
            \<and> (\<forall>te \<in> set (edges t). \<exists>e \<in> set (edges g'). eid e = eid te \<and> slack g' e = Some 0 \<and>
                  ((source e = source te \<and> target e = target te) \<or>
                   (source e = target te \<and> target e = source te))))
         \<and> (treeInv h s \<longrightarrow> treeInv (shiftRanks s h (Some d)) s)"
proof -
  from feasibleTree_ok [OF assms]
  obtain t g' where r: "feasibleTree fuel g = Some (Inr (t, g'))" "same g g'"
    "treeInv g' t" "length (nodes t) = length (nodes g)"
    by blast
  have "ids t = ids g" using spanning_ids [OF assms(1) r(3) r(2) r(4)] .
  moreover have "distinct (map nid (nodes t))" using r(3) by (simp add: treeInv_def)
  moreover have "\<forall>te \<in> set (edges t). \<exists>e \<in> set (edges g'). eid e = eid te \<and> slack g' e = Some 0 \<and>
                  ((source e = source te \<and> target e = target te) \<or>
                   (source e = target te \<and> target e = source te))"
    using r(3) unfolding treeInv_def by blast
  ultimately show ?thesis using r(1,2,4) treeInv_shift [of h s d] by blast
qed

theorem tight_tree_completeness_witness:
  "(let g = the (longestPath 4 twoSinks)
    in wellFormed g \<and> connected g \<and> feasible g \<and> nodes g \<noteq> [] \<and> length (nodes g) < 4
       \<and> (\<exists>t g'. feasibleTree 4 g = Some (Inr (t, g'))
             \<and> ranks g' = [(''a'', Some (- 1)), (''b'', Some 0), (''c'', Some 1)]
             \<and> map nid (nodes t) = [''a'', ''c'', ''b'']
             \<and> map eid (edges t) = [''a->c'', ''a->b'']
             \<and> length (nodes t) = length (nodes g) \<and> ids t = ids g
             \<and> (\<forall>te \<in> set (edges t). \<exists>e \<in> set (edges g'). eid e = eid te \<and> slack g' e = Some 0)
             \<and> treeInv g' t \<and> treeInv (shiftRanks t g' (Some 5)) t))"
proof -
  define g where "g = the (longestPath 4 twoSinks)"
  have h: "wellFormed g" "connected g" "feasible g" "nodes g \<noteq> []" "length (nodes g) < 4"
    unfolding g_def by code_simp+
  from tight_tree_completeness [OF h, of "emptyGraph" "emptyGraph" 0]
  obtain t g' where r: "feasibleTree 4 g = Some (Inr (t, g'))"
    "length (nodes t) = length (nodes g)" "ids t = ids g"
    "\<forall>te \<in> set (edges t). \<exists>e \<in> set (edges g'). eid e = eid te \<and> slack g' e = Some 0 \<and>
                  ((source e = source te \<and> target e = target te) \<or>
                   (source e = target te \<and> target e = source te))"
    by blast
  have v: "(case feasibleTree 4 g of Some (Inr (t, g')) \<Rightarrow>
              ranks g' = [(''a'', Some (- 1)), (''b'', Some 0), (''c'', Some 1)]
              \<and> map nid (nodes t) = [''a'', ''c'', ''b'']
              \<and> map eid (edges t) = [''a->c'', ''a->b'']
              \<and> treeInv g' t | _ \<Rightarrow> False)"
    unfolding g_def by code_simp
  have "treeInv g' t" using v r(1) by simp
  moreover have "treeInv g' t \<longrightarrow> treeInv (shiftRanks t g' (Some 5)) t"
    using tight_tree_completeness [OF h, of g' t 5] by blast
  ultimately show ?thesis
    using h r v unfolding Let_def g_def [symmetric] by auto
qed




text \<open>
  Claim C3 (layer pin authority): a node with a layer is said to end with that layer as
  its rank after \<open>longestPathWithLayer\<close> and \<open>feasibleTreeWithLayer\<close>, and not to be
  moved by the rank shifts once it is in the tight tree. On the chain \<open>a \<rightarrow> b \<rightarrow> c\<close> with
  \<open>b\<close> pinned to layer \<open>5\<close>, \<open>longestPathWithLayer\<close> leaves the ranks \<open>0, 5, 8\<close>;
  \<open>feasibleTreeWithLayer\<close> then admits \<open>b\<close> into the tree of \<open>a\<close> because it is pinned,
  finds the edge to \<open>c\<close> two too long, and \<open>shiftRanks\<close> moves the whole tree, \<open>b\<close>
  included, by two: the ranks end as \<open>2, 7, 8\<close>.
\<close>

theorem pinned_node_is_shifted:
  "map_option ranks (longestPathWithLayer 4 pinnedChain)
     = Some [(''a'', Some 0), (''b'', Some 5), (''c'', Some 8)]
   \<and> (case feasibleTreeWithLayer 4 (the (longestPathWithLayer 4 pinnedChain)) of
        Some (Inr (t, g)) \<Rightarrow>
          ranks g = [(''a'', Some 2), (''b'', Some 7), (''c'', Some 8)]
          \<and> map nid (nodes t) = [''a'', ''b'', ''c'']
      | _ \<Rightarrow> False)"
  by code_simp

section \<open>Claims about layer graphs\<close>

text \<open>
  Claim C8 (edge aggregation): let \<open>buildLayerGraph\<close> return a layer graph for a
  well-formed graph and the direction \<open>in\<close> or \<open>out\<close>, let \<open>v\<close> be a materialized node
  and \<open>u\<close> the other end of one of the edges of \<open>v\<close> in that direction. Then the layer
  graph has exactly one edge from \<open>u\<close> to \<open>v\<close>, and its weight is the sum of the weights
  of all the edges of \<open>v\<close> in that direction whose other end is \<open>u\<close>; if the graph is
  acyclic, \<open>u\<close> is not \<open>v\<close> and the layer graph has no edge from \<open>v\<close> to \<open>u\<close>, so
  that edge is the only one between the two.
\<close>

theorem layer_graph_edge_aggregation:
  assumes "wellFormed g" and "dir \<noteq> Both"
    and "buildLayerGraph rootId g r dir = Inr lg"
    and "v \<in> set (nodes g)" and "materialized v r"
    and "e0 \<in> set (getRelatedEdges g (nid v) dir)"
  shows "(\<exists>re. filter (\<lambda>x. source x = other (nid v) e0 \<and> target x = nid v) (edges lg) = [re] \<and>
           weight re = sumWeights (map weight
             (filter (\<lambda>e. other (nid v) e = other (nid v) e0) (getRelatedEdges g (nid v) dir))))
         \<and> (acyclic (edgeRel g) \<longrightarrow>
              other (nid v) e0 \<noteq> nid v \<and>
              filter (\<lambda>x. source x = nid v \<and> target x = other (nid v) e0) (edges lg) = [])"
proof -
  from assms(1) have de: "distinct (map eid (edges g))" and dn: "distinct (map nid (nodes g))"
    by (auto simp: wellFormed_def)
  show ?thesis
    using layer_edges [OF de dn assms(2-6)] by blast
qed

theorem layer_graph_edge_aggregation_witness:
  "wellFormed doubled \<and> In \<noteq> Both \<and> acyclic (edgeRel doubled)
   \<and> rankedNode ''x'' 1 \<in> set (nodes doubled) \<and> materialized (rankedNode ''x'' 1) 1
   \<and> weighted ''e1'' ''p'' ''x'' 2 \<in> set (getRelatedEdges doubled ''x'' In)
   \<and> other ''x'' (weighted ''e1'' ''p'' ''x'' 2) = ''p''
   \<and> sumWeights (map weight (filter (\<lambda>e. other ''x'' e = ''p'') (getRelatedEdges doubled ''x'' In)))
       = Fin 7
   \<and> (\<exists>lg re. buildLayerGraph ''_root'' doubled 1 In = Inr lg
         \<and> map nid (nodes lg) = [''_root'', ''x'', ''p'', ''q'', ''y'']
         \<and> edges lg =
              [\<lparr>eid = ''e1'', source = ''p'', target = ''x'', minlen = None, weight = Fin 7\<rparr>,
               \<lparr>eid = ''e2'', source = ''q'', target = ''x'', minlen = None, weight = Fin 1\<rparr>,
               \<lparr>eid = ''e4'', source = ''p'', target = ''y'', minlen = None, weight = Fin 1\<rparr>]
         \<and> filter (\<lambda>x. source x = ''p'' \<and> target x = ''x'') (edges lg) = [re]
         \<and> weight re = Fin 7
         \<and> filter (\<lambda>x. source x = ''x'' \<and> target x = ''p'') (edges lg) = [])"
proof -
  have wf: "wellFormed doubled" by code_simp
  have acy: "acyclic (edgeRel doubled)" by code_simp
  have "case buildLayerGraph ''_root'' doubled 1 In of
          Inl _ \<Rightarrow> False
        | Inr lg \<Rightarrow> map nid (nodes lg) = [''_root'', ''x'', ''p'', ''q'', ''y''] \<and>
            edges lg =
              [\<lparr>eid = ''e1'', source = ''p'', target = ''x'', minlen = None, weight = Fin 7\<rparr>,
               \<lparr>eid = ''e2'', source = ''q'', target = ''x'', minlen = None, weight = Fin 1\<rparr>,
               \<lparr>eid = ''e4'', source = ''p'', target = ''y'', minlen = None, weight = Fin 1\<rparr>]"
    by code_simp
  then obtain lg where b: "buildLayerGraph ''_root'' doubled 1 In = Inr lg"
    and n: "map nid (nodes lg) = [''_root'', ''x'', ''p'', ''q'', ''y'']"
    and e: "edges lg =
              [\<lparr>eid = ''e1'', source = ''p'', target = ''x'', minlen = None, weight = Fin 7\<rparr>,
               \<lparr>eid = ''e2'', source = ''q'', target = ''x'', minlen = None, weight = Fin 1\<rparr>,
               \<lparr>eid = ''e4'', source = ''p'', target = ''y'', minlen = None, weight = Fin 1\<rparr>]"
    by (auto split: sum.splits)
  have v: "rankedNode ''x'' 1 \<in> set (nodes doubled)" "materialized (rankedNode ''x'' 1) 1"
    by code_simp+
  have nx: "nid (rankedNode ''x'' 1) = ''x''" by (simp add: rankedNode_def bareNode_def)
  have e0: "weighted ''e1'' ''p'' ''x'' 2 \<in> set (getRelatedEdges doubled ''x'' In)"
    by code_simp
  have o: "other ''x'' (weighted ''e1'' ''p'' ''x'' 2) = ''p''"
    by (simp add: other_def weighted_def)
  have s: "sumWeights (map weight (filter (\<lambda>e. other ''x'' e = ''p'') (getRelatedEdges doubled ''x'' In)))
       = Fin 7"
    by code_simp
  from layer_graph_edge_aggregation [OF wf _ b v, of "weighted ''e1'' ''p'' ''x'' 2"] e0 acy
  have "\<exists>re. filter (\<lambda>x. source x = ''p'' \<and> target x = ''x'') (edges lg) = [re] \<and> weight re = Fin 7"
    and nf: "filter (\<lambda>x. source x = ''x'' \<and> target x = ''p'') (edges lg) = []"
    unfolding nx o s by auto
  then obtain re where re: "filter (\<lambda>x. source x = ''p'' \<and> target x = ''x'') (edges lg) = [re]"
    "weight re = Fin 7"
    by blast
  have nb: "In \<noteq> Both" by simp
  show ?thesis
    by (intro conjI exI [of _ lg] exI [of _ re]) (rule wf nb acy v e0 o s b n e re nf)+
qed

section \<open>Claim about the nodes kept by \<open>resolveConflicts\<close>\<close>



end
